theory Spec2Isabelle
  imports Complex_Main
begin

section \<open>JavaScript values and arrays\<close>

text \<open>
  The game engine lives in one React component, \<^verbatim>\<open>src/App.tsx\<close>. Its arrays are JavaScript
  arrays: a read past the end yields \<^verbatim>\<open>undefined\<close>, a write past the end extends the array and
  leaves holes. An array that the source writes by index is therefore a list of optional
  values, \<open>None\<close> standing for a hole or \<^verbatim>\<open>undefined\<close>. A JavaScript string is a list of
  code units, here \<open>string\<close>; \<^verbatim>\<open>s.split('')\<close> is the list itself, each element a
  one-unit string. Numbers are integers far below \<open>2^53\<close>, modelled by \<open>nat\<close> and \<open>int\<close>.
\<close>

text \<open>\<^verbatim>\<open>xs[i]\<close> on an array without holes.\<close>

definition js_nth :: "'a list \<Rightarrow> nat \<Rightarrow> 'a option" where
  "js_nth xs i = (if i < length xs then Some (xs ! i) else None)"

text \<open>\<^verbatim>\<open>xs[i]\<close> on an array that may hold \<^verbatim>\<open>undefined\<close>.\<close>

definition js_get :: "'a option list \<Rightarrow> nat \<Rightarrow> 'a option" where
  "js_get xs i = (if i < length xs then xs ! i else None)"

text \<open>\<^verbatim>\<open>xs[i] = v\<close>: in range it overwrites, past the end it extends the array with holes.\<close>

definition js_set :: "'a option list \<Rightarrow> nat \<Rightarrow> 'a option \<Rightarrow> 'a option list" where
  "js_set xs i v =
     (if i < length xs then xs[i := v]
      else xs @ replicate (i - length xs) None @ [v])"

text \<open>\<^verbatim>\<open>xs.findIndex((x, index) => p)\<close>: the first index whose element satisfies \<open>p\<close>, or \<open>-1\<close>.\<close>

fun js_findIndex_from :: "('a \<Rightarrow> nat \<Rightarrow> bool) \<Rightarrow> 'a list \<Rightarrow> nat \<Rightarrow> int" where
  "js_findIndex_from p [] k = - 1"
| "js_findIndex_from p (x # xs) k =
     (if p x k then int k else js_findIndex_from p xs (Suc k))"

definition js_findIndex :: "('a \<Rightarrow> nat \<Rightarrow> bool) \<Rightarrow> 'a list \<Rightarrow> int" where
  "js_findIndex p xs = js_findIndex_from p xs 0"

text \<open>\<^verbatim>\<open>xs.forEach((x, i) => body)\<close>, the body a transformer of the variables it mutates.\<close>

definition js_forEach :: "('s \<Rightarrow> nat \<times> 'a \<Rightarrow> 's) \<Rightarrow> 'a list \<Rightarrow> 's \<Rightarrow> 's" where
  "js_forEach body xs s = fold (\<lambda>p acc. body acc p) (enumerate 0 xs) s"

text \<open>Truthiness of an entry of a boolean array: \<^verbatim>\<open>undefined\<close> and \<^verbatim>\<open>false\<close> are falsy.\<close>

definition truthy :: "bool option \<Rightarrow> bool" where
  "truthy b = (b = Some True)"

section \<open>Types of the game (\<^verbatim>\<open>types.ts\<close>)\<close>

datatype CharStatus = Correct | Present | Absent | Initial

datatype GameStatus = Playing | Won | Lost

section \<open>The scorer: \<^verbatim>\<open>getGuessStatuses\<close>\<close>

text \<open>
  Pass 1 (green) and pass 2 (yellow) are the bodies of the two \<^verbatim>\<open>forEach\<close> loops over the
  letters of the guess; both mutate \<^verbatim>\<open>statuses\<close> and \<^verbatim>\<open>solutionCharsTaken\<close>. The writes to
  \<^verbatim>\<open>solutionCharsTaken\<close> are always in range: index \<open>i\<close> of pass 1 is below the length of the
  solution because \<^verbatim>\<open>splitSolution[i]\<close> was a letter, and the index of pass 2 comes from
  \<^verbatim>\<open>findIndex\<close> over the solution.
\<close>

fun green_step ::
  "string \<Rightarrow> CharStatus option list \<times> bool list \<Rightarrow> nat \<times> char
     \<Rightarrow> CharStatus option list \<times> bool list" where
  "green_step splitSolution (statuses, solutionCharsTaken) (i, letter) =
     (if js_nth splitSolution i = Some letter
      then (js_set statuses i (Some Correct), solutionCharsTaken[i := True])
      else (statuses, solutionCharsTaken))"

fun yellow_step ::
  "string \<Rightarrow> CharStatus option list \<times> bool list \<Rightarrow> nat \<times> char
     \<Rightarrow> CharStatus option list \<times> bool list" where
  "yellow_step splitSolution (statuses, solutionCharsTaken) (i, letter) =
     (if js_get statuses i \<noteq> Some Correct then
        (let indexOfCharInSolution =
               js_findIndex
                 (\<lambda>sLetter index. sLetter = letter \<and> js_nth solutionCharsTaken index \<noteq> Some True)
                 splitSolution
         in if indexOfCharInSolution > - 1
            then (js_set statuses i (Some Present),
                  solutionCharsTaken[nat indexOfCharInSolution := True])
            else (statuses, solutionCharsTaken))
      else (statuses, solutionCharsTaken))"

definition getGuessStatuses :: "nat \<Rightarrow> string \<Rightarrow> string \<Rightarrow> CharStatus option list" where
  "getGuessStatuses WORD_LENGTH guess solutionWord =
     (let splitSolution = solutionWord;
          splitGuess = guess;
          statuses = replicate WORD_LENGTH (Some Absent);
          solutionCharsTaken = map (\<lambda>_. False) splitSolution;
          pass1 = js_forEach (green_step splitSolution) splitGuess (statuses, solutionCharsTaken);
          pass2 = js_forEach (yellow_step splitSolution) splitGuess pass1
      in fst pass2)"

subsection \<open>The reference algorithm of the specification\<close>

text \<open>
  Written from the specification's words, to be compared with \<open>getGuessStatuses\<close>: pass 1
  consumes every solution position \<open>i\<close> with \<open>guess[i] = solution[i]\<close>; pass 2 visits the
  guess indices from left to right, and an index that is not correct takes the lowest
  unconsumed solution position holding its letter, if there is one.
\<close>

definition spec_pass1 :: "nat \<Rightarrow> string \<Rightarrow> string \<Rightarrow> nat set" where
  "spec_pass1 L guess solution = {i \<in> set [0..<L]. guess ! i = solution ! i}"

definition spec_lowest_unconsumed :: "nat \<Rightarrow> string \<Rightarrow> nat set \<Rightarrow> char \<Rightarrow> nat option" where
  "spec_lowest_unconsumed L solution consumed c =
     List.find (\<lambda>j. j \<notin> consumed \<and> solution ! j = c) [0..<L]"

fun spec_pass2 :: "nat \<Rightarrow> string \<Rightarrow> string \<Rightarrow> nat list \<Rightarrow> nat set \<Rightarrow> CharStatus list" where
  "spec_pass2 L guess solution [] consumed = []"
| "spec_pass2 L guess solution (i # rest) consumed =
     (if guess ! i = solution ! i then Correct # spec_pass2 L guess solution rest consumed
      else (case spec_lowest_unconsumed L solution consumed (guess ! i) of
              Some j \<Rightarrow> Present # spec_pass2 L guess solution rest (insert j consumed)
            | None \<Rightarrow> Absent # spec_pass2 L guess solution rest consumed))"

definition spec_score :: "nat \<Rightarrow> string \<Rightarrow> string \<Rightarrow> CharStatus list" where
  "spec_score L guess solution =
     spec_pass2 L guess solution [0..<L] (spec_pass1 L guess solution)"

section \<open>The session state of the component\<close>

text \<open>
  An event handler of the component runs on the state of the last render: every state
  variable it reads has the value from before the event, whatever setters it has called,
  and a setter called with an updater, \<^verbatim>\<open>setScore(prev => prev + n)\<close>, applies it to the
  pending value. A handler is therefore a function from the state before the event to the
  state after it.

  The \<^verbatim>\<open>useState\<close> cells of \<^verbatim>\<open>App\<close>, one field each, with the source's names. A slot of
  \<^verbatim>\<open>currentGuess\<close> is a string: empty, or one letter. \<^verbatim>\<open>revealedHints\<close> is an object
  with integer keys, modelled by an association list kept in ascending key order, the
  order in which \<^verbatim>\<open>Object.entries\<close> lists such keys. A toast is identified by its text; the
  number interpolated into the text is the constructor's argument.
\<close>

datatype ToastMessage =
    Palavra_incompleta
  | Palavra_desconhecida
  | Pontos_insuficientes int
  | Libere_espaco
  | Pts_Fase_Completa int
  | Fase_Completa
  | Fim_de_Jogo
  | Pontos int

record state =
  level :: nat
  score :: int
  hintCost :: int
  solutions :: "string option list"
  guesses :: "string list"
  currentGuess :: "string option list"
  activeTileIndex :: nat
  gameStatus :: GameStatus
  solvedIndices :: "bool option list"
  revealedHints :: "(nat \<times> string option) list"
  hintedSolutionIndex :: "nat option"
  shakeRow :: bool
  toast :: "ToastMessage option"
  validGuessesSet :: "string set"

datatype js_error = TypeError

text \<open>\<^verbatim>\<open>{...obj, [k]: v}\<close> on an object with integer keys.\<close>

fun obj_put :: "nat \<Rightarrow> 'v \<Rightarrow> (nat \<times> 'v) list \<Rightarrow> (nat \<times> 'v) list" where
  "obj_put k v [] = [(k, v)]"
| "obj_put k v ((k', v') # rest) =
     (if k < k' then (k, v) # (k', v') # rest
      else if k = k' then (k, v) # rest
      else (k', v') # obj_put k v rest)"

text \<open>\<^verbatim>\<open>obj[k]\<close>: \<^verbatim>\<open>undefined\<close> for a missing key.\<close>

definition obj_get :: "(nat \<times> 'v option) list \<Rightarrow> nat \<Rightarrow> 'v option" where
  "obj_get obj k = (case map_of obj k of None \<Rightarrow> None | Some v \<Rightarrow> v)"

text \<open>\<^verbatim>\<open>!s\<close> for a string or \<^verbatim>\<open>undefined\<close>: true for \<^verbatim>\<open>undefined\<close> and for the empty string.\<close>

definition falsy_string :: "string option \<Rightarrow> bool" where
  "falsy_string s = (case s of None \<Rightarrow> True | Some t \<Rightarrow> t = [])"

text \<open>\<^verbatim>\<open>xs.join("")\<close>: \<^verbatim>\<open>undefined\<close> entries and holes contribute the empty string.\<close>

definition js_join :: "string option list \<Rightarrow> string" where
  "js_join xs = concat (map (\<lambda>x. case x of None \<Rightarrow> [] | Some t \<Rightarrow> t) xs)"

text \<open>
  \<^verbatim>\<open>[...solvedIndices]\<close>: the copy has no holes, a hole is copied as \<^verbatim>\<open>undefined\<close>. Every use
  of the copy treats \<^verbatim>\<open>undefined\<close> as \<^verbatim>\<open>false\<close> (\<^verbatim>\<open>!x\<close>, \<^verbatim>\<open>Boolean(x)\<close>), so the copy holds
  \<open>Some False\<close> there. \<^verbatim>\<open>xs.every(Boolean)\<close> skips the holes that a later write past the
  end may leave.
\<close>

definition js_spread_bool :: "bool option list \<Rightarrow> bool option list" where
  "js_spread_bool xs = map (\<lambda>x. case x of None \<Rightarrow> Some False | Some b \<Rightarrow> Some b) xs"

definition every_Boolean :: "bool option list \<Rightarrow> bool" where
  "every_Boolean xs = list_all (\<lambda>x. x \<noteq> Some False) xs"

section \<open>The random source\<close>

text \<open>
  \<^verbatim>\<open>Math.random()\<close> returns a number \<open>u\<close> with \<open>0 \<le> u < 1\<close>; the source only ever uses
  \<^verbatim>\<open>Math.floor(Math.random() * n)\<close>, which is \<open>random_index u n\<close>.
\<close>

typedef unit_interval = "{u :: real. 0 \<le> u \<and> u < 1}"
  by (rule exI [of _ 0]) simp

setup_lifting type_definition_unit_interval

lift_definition random_index :: "unit_interval \<Rightarrow> nat \<Rightarrow> nat"
  is "\<lambda>u n. nat \<lfloor>u * real n\<rfloor>" .

text \<open>The value \<open>k / n\<close> of the random source, for which \<open>random_index\<close> is \<open>k\<close>.\<close>

lift_definition unit_frac :: "nat \<Rightarrow> nat \<Rightarrow> unit_interval"
  is "\<lambda>k n. if k < n then real k / real n else 0"
  by simp

section \<open>Level initialisation: \<^verbatim>\<open>initGame\<close>\<close>

text \<open>
  The \<^verbatim>\<open>while\<close> loop that draws the solutions has no bound, so it is a partial function:
  \<open>None\<close> means that the loop never returns. \<open>random n\<close> is the value of the \<open>n\<close>-th call of
  \<^verbatim>\<open>Math.random()\<close>. \<^verbatim>\<open>validWords[k]\<close> is \<^verbatim>\<open>undefined\<close> when \<^verbatim>\<open>validWords\<close> is empty, and
  \<^verbatim>\<open>undefined\<close> is pushed like a word.
\<close>

partial_function (option) select_loop ::
  "(nat \<Rightarrow> unit_interval) \<Rightarrow> string list \<Rightarrow> nat \<Rightarrow> string option list \<Rightarrow> nat
     \<Rightarrow> string option list option" where
  "select_loop random validWords numWords newSolutions n =
     (if length newSolutions < numWords then
        (let randomWord = js_nth validWords (random_index (random n) (length validWords))
         in if randomWord \<notin> set newSolutions
            then select_loop random validWords numWords (newSolutions @ [randomWord]) (Suc n)
            else select_loop random validWords numWords newSolutions (Suc n))
      else Some newSolutions)"

definition eligible :: "nat \<Rightarrow> string \<Rightarrow> bool" where
  "eligible WORD_LENGTH w = (length w = WORD_LENGTH \<and> CHR '' '' \<notin> set w)"

definition selectSolutions ::
  "nat \<Rightarrow> string list \<Rightarrow> (nat \<Rightarrow> unit_interval) \<Rightarrow> nat \<Rightarrow> string option list option" where
  "selectSolutions WORD_LENGTH WORDS random numWords =
     (let validWords = filter (eligible WORD_LENGTH) WORDS
      in select_loop random validWords numWords [] 0)"

definition initGame ::
  "nat \<Rightarrow> string list \<Rightarrow> (nat \<Rightarrow> unit_interval) \<Rightarrow> state \<Rightarrow> state option" where
  "initGame WORD_LENGTH WORDS random st =
     (let numWords = level st + 1
      in case selectSolutions WORD_LENGTH WORDS random numWords of
           None \<Rightarrow> None
         | Some newSolutions \<Rightarrow>
             Some (st\<lparr>solutions := newSolutions,
                      solvedIndices := replicate numWords (Some False),
                      guesses := [],
                      currentGuess := replicate WORD_LENGTH (Some []),
                      activeTileIndex := 0,
                      gameStatus := Playing,
                      shakeRow := False,
                      hintCost := 5,
                      revealedHints := [],
                      hintedSolutionIndex := None,
                      toast := None\<rparr>))"

section \<open>The keyboard map: \<^verbatim>\<open>getKeyStatuses\<close>\<close>

fun key_step ::
  "CharStatus option list \<Rightarrow> (char \<rightharpoonup> CharStatus) \<Rightarrow> nat \<times> char \<Rightarrow> (char \<rightharpoonup> CharStatus)" where
  "key_step statuses keyStatuses (i, letter) =
     (let currentStatus = keyStatuses letter;
          newStatus = js_get statuses i
      in if currentStatus = Some Correct then keyStatuses
         else if newStatus = Some Correct then keyStatuses(letter \<mapsto> Correct)
         else if currentStatus = Some Present then keyStatuses
         else if newStatus = Some Present then keyStatuses(letter \<mapsto> Present)
         else if newStatus = Some Absent then keyStatuses(letter \<mapsto> Absent)
         else keyStatuses)"

text \<open>
  The body of \<^verbatim>\<open>solutions.forEach\<close>. A solution that is \<^verbatim>\<open>undefined\<close> makes
  \<^verbatim>\<open>solutionWord.split\<close> throw; the exception leaves both loops.
\<close>

fun key_solution_step ::
  "nat \<Rightarrow> bool option list \<Rightarrow> string \<Rightarrow> js_error + (char \<rightharpoonup> CharStatus)
     \<Rightarrow> nat \<times> string option \<Rightarrow> js_error + (char \<rightharpoonup> CharStatus)" where
  "key_solution_step WORD_LENGTH solved guess (Inl e) (solIndex, sol) = Inl e"
| "key_solution_step WORD_LENGTH solved guess (Inr keyStatuses) (solIndex, sol) =
     (if truthy (js_get solved solIndex) then Inr keyStatuses
      else (case sol of
              None \<Rightarrow> Inl TypeError
            | Some solutionWord \<Rightarrow>
                Inr (js_forEach (key_step (getGuessStatuses WORD_LENGTH guess solutionWord))
                       guess keyStatuses)))"

definition getKeyStatuses :: "nat \<Rightarrow> state \<Rightarrow> js_error + (char \<rightharpoonup> CharStatus)" where
  "getKeyStatuses WORD_LENGTH st =
     js_forEach
       (\<lambda>acc (guessIndex, guess).
          js_forEach (key_solution_step WORD_LENGTH (solvedIndices st) guess) (solutions st) acc)
       (guesses st) (Inr Map.empty)"

section \<open>The hint: \<^verbatim>\<open>handleHint\<close>\<close>

text \<open>
  The \<^verbatim>\<open>while\<close> loop that looks for the next free slot. It reads \<^verbatim>\<open>currentGuess\<close>, the value
  the handler closed over, which is the buffer before the hint letter was written.
\<close>

function next_free :: "nat \<Rightarrow> string option list \<Rightarrow> nat \<Rightarrow> nat" where
  "next_free WORD_LENGTH closedGuess nextIndex =
     (if nextIndex < WORD_LENGTH - 1 \<and> js_get closedGuess nextIndex \<noteq> Some []
      then next_free WORD_LENGTH closedGuess (nextIndex + 1)
      else nextIndex)"
  by pat_completeness auto
termination
  by (relation "measure (\<lambda>(WORD_LENGTH, closedGuess, nextIndex). WORD_LENGTH - 1 - nextIndex)")
     auto

text \<open>
  \<^verbatim>\<open>availableIndices\<close>: the indices of \<^verbatim>\<open>currentGuess\<close> whose slot is the empty string and
  whose entry in \<^verbatim>\<open>revealedHints\<close> is falsy.
\<close>

definition availableIndices :: "state \<Rightarrow> nat list" where
  "availableIndices st =
     filter (\<lambda>index. js_get (currentGuess st) index = Some []
                    \<and> falsy_string (obj_get (revealedHints st) index))
       [0..<length (currentGuess st)]"

text \<open>
  The handler reads the state it closed over: \<^verbatim>\<open>revealedHints\<close> in the filter and in
  \<^verbatim>\<open>newRevealed\<close> is the object before \<^verbatim>\<open>setRevealedHints({})\<close>, and the later
  \<^verbatim>\<open>setRevealedHints(newRevealed)\<close> overrides the earlier call. After the retargeting
  test \<^verbatim>\<open>activeHintIndex\<close> is \<^verbatim>\<open>currentUnsolvedIndex\<close> on both branches. Indexing an
  \<^verbatim>\<open>undefined\<close> target solution throws. The index into \<^verbatim>\<open>availableIndices\<close> is in range
  because the list is not empty there.
\<close>

definition handleHint :: "nat \<Rightarrow> unit_interval \<Rightarrow> state \<Rightarrow> js_error + state" where
  "handleHint WORD_LENGTH u st =
     (if gameStatus st \<noteq> Playing then Inr st
      else if score st < hintCost st
      then Inr (st\<lparr>toast := Some (Pontos_insuficientes (hintCost st))\<rparr>)
      else
        (let currentUnsolvedIndex = js_findIndex (\<lambda>solved index. \<not> truthy solved) (solvedIndices st)
         in if currentUnsolvedIndex = - 1 then Inr st
            else
              (let retarget =
                     (case hintedSolutionIndex st of
                        None \<Rightarrow> True
                      | Some h \<Rightarrow> truthy (js_get (solvedIndices st) h) \<or> int h \<noteq> currentUnsolvedIndex);
                   activeHintIndex =
                     (case hintedSolutionIndex st of
                        None \<Rightarrow> nat currentUnsolvedIndex
                      | Some h \<Rightarrow> if retarget then nat currentUnsolvedIndex else h);
                   st1 = (if retarget
                          then st\<lparr>hintedSolutionIndex := Some activeHintIndex, revealedHints := []\<rparr>
                          else st);
                   targetSolution = js_get (solutions st) activeHintIndex
               in if availableIndices st = []
                  then Inr (st1\<lparr>toast := Some Libere_espaco, shakeRow := True\<rparr>)
                  else
                    (let randomIndex =
                           availableIndices st ! random_index u (length (availableIndices st))
                     in case targetSolution of
                          None \<Rightarrow> Inl TypeError
                        | Some target \<Rightarrow>
                            (let correctLetter = map_option (\<lambda>c. [c]) (js_nth target randomIndex);
                                 newRevealed = obj_put randomIndex correctLetter (revealedHints st);
                                 st2 = st1\<lparr>revealedHints := newRevealed,
                                           currentGuess :=
                                             js_set (currentGuess st) randomIndex correctLetter,
                                           score := score st - hintCost st,
                                           hintCost := hintCost st + 5\<rparr>
                             in Inr (if randomIndex = activeTileIndex st
                                     then st2\<lparr>activeTileIndex :=
                                                next_free WORD_LENGTH (currentGuess st)
                                                  (activeTileIndex st)\<rparr>
                                     else st2))))))"

section \<open>The key handler: \<^verbatim>\<open>onKeyDown\<close>\<close>

definition backspace :: "state \<Rightarrow> state" where
  "backspace st =
     (let newGuess = currentGuess st
      in if js_get newGuess (activeTileIndex st) \<noteq> Some []
         then st\<lparr>currentGuess := js_set newGuess (activeTileIndex st) (Some [])\<rparr>
         else
           (let prevIndex = nat (max 0 (int (activeTileIndex st) - 1))
            in st\<lparr>currentGuess := js_set newGuess prevIndex (Some []),
                  activeTileIndex := prevIndex\<rparr>))"

text \<open>
  The body of \<^verbatim>\<open>solutions.forEach\<close> in the ENTER branch; it mutates \<^verbatim>\<open>newSolvedIndices\<close>,
  \<^verbatim>\<open>turnPoints\<close> and, through \<^verbatim>\<open>setScore(prev => prev + pointsEarned)\<close>, the score.
\<close>

fun solve_step ::
  "string \<Rightarrow> nat \<Rightarrow> bool option list \<times> int \<times> int \<Rightarrow> nat \<times> string option
     \<Rightarrow> bool option list \<times> int \<times> int" where
  "solve_step joinedGuess attemptsTaken (newSolvedIndices, turnPoints, score') (i, sol) =
     (if \<not> truthy (js_get newSolvedIndices i) \<and> Some joinedGuess = sol
      then (let pointsEarned = max 10 (100 - int attemptsTaken * 15)
            in (js_set newSolvedIndices i (Some True),
                turnPoints + pointsEarned,
                score' + pointsEarned))
      else (newSolvedIndices, turnPoints, score'))"

text \<open>The buffer of the next guess: empty slots, then the revealed hints written back.\<close>

definition nextGuess :: "nat \<Rightarrow> (nat \<times> string option) list \<Rightarrow> string option list" where
  "nextGuess WORD_LENGTH revealed =
     fold (\<lambda>(idx, char) acc. js_set acc idx char) revealed (replicate WORD_LENGTH (Some []))"

definition enter :: "nat \<Rightarrow> state \<Rightarrow> state" where
  "enter WORD_LENGTH st =
     (let joinedGuess = js_join (currentGuess st);
          maxChallenges = 6 + level st
      in if length joinedGuess \<noteq> WORD_LENGTH \<or> Some [] \<in> set (currentGuess st)
         then st\<lparr>shakeRow := True, toast := Some Palavra_incompleta\<rparr>
         else if joinedGuess \<notin> validGuessesSet st
         then st\<lparr>shakeRow := True, toast := Some Palavra_desconhecida\<rparr>
         else
           (let newGuesses = guesses st @ [joinedGuess];
                solved = js_forEach (solve_step joinedGuess (length (guesses st))) (solutions st)
                           (js_spread_bool (solvedIndices st), 0, score st);
                newSolvedIndices = fst solved;
                turnPoints = fst (snd solved);
                st1 = st\<lparr>guesses := newGuesses,
                         score := snd (snd solved),
                         solvedIndices := newSolvedIndices\<rparr>;
                wasHintedWordSolved =
                  (case hintedSolutionIndex st of
                     None \<Rightarrow> False
                   | Some h \<Rightarrow> truthy (js_get newSolvedIndices h));
                st2 = (if wasHintedWordSolved
                       then st1\<lparr>revealedHints := [],
                                hintedSolutionIndex := None,
                                currentGuess := replicate WORD_LENGTH (Some [])\<rparr>
                       else st1\<lparr>currentGuess := nextGuess WORD_LENGTH (revealedHints st)\<rparr>);
                st3 = st2\<lparr>activeTileIndex := 0\<rparr>;
                allSolved = every_Boolean newSolvedIndices
            in if allSolved
               then st3\<lparr>gameStatus := Won,
                        toast := Some (if turnPoints > 0 then Pts_Fase_Completa turnPoints
                                       else Fase_Completa)\<rparr>
               else if length newGuesses \<ge> maxChallenges
               then st3\<lparr>gameStatus := Lost, toast := Some Fim_de_Jogo\<rparr>
               else if turnPoints > 0
               then st3\<lparr>toast := Some (Pontos turnPoints)\<rparr>
               else st3))"

text \<open>\<^verbatim>\<open>/^[A-Z]$/.test(key) && key.length === 1\<close>\<close>

definition is_letter_key :: "string \<Rightarrow> bool" where
  "is_letter_key key =
     (case key of [c] \<Rightarrow> c \<in> set ''ABCDEFGHIJKLMNOPQRSTUVWXYZ'' | _ \<Rightarrow> False)"

text \<open>
  \<^verbatim>\<open>Math.min(WORD_LENGTH - 1, prev + 1)\<close> is computed over the integers; the cursor is a
  natural number because \<^verbatim>\<open>WORD_LENGTH\<close> is positive.
\<close>

definition onKeyDown :: "nat \<Rightarrow> state \<Rightarrow> string \<Rightarrow> state" where
  "onKeyDown WORD_LENGTH st key =
     (if gameStatus st \<noteq> Playing then st
      else if key = ''BACKSPACE'' then backspace st
      else if key = ''ARROWLEFT''
      then st\<lparr>activeTileIndex := nat (max 0 (int (activeTileIndex st) - 1))\<rparr>
      else if key = ''ARROWRIGHT''
      then st\<lparr>activeTileIndex := nat (min (int WORD_LENGTH - 1) (int (activeTileIndex st) + 1))\<rparr>
      else if key = ''ENTER'' then enter WORD_LENGTH st
      else if is_letter_key key
      then (let st1 = st\<lparr>currentGuess := js_set (currentGuess st) (activeTileIndex st) (Some key)\<rparr>
            in if activeTileIndex st < WORD_LENGTH - 1
               then st1\<lparr>activeTileIndex := activeTileIndex st + 1\<rparr>
               else st1)
      else st)"

section \<open>The component as a transition system\<close>

text \<open>
  The state with which \<^verbatim>\<open>App\<close> is first rendered, and the effects of the first render: the
  initial load runs \<^verbatim>\<open>initGame\<close>, and the score is set to \<open>0\<close> because the level is \<open>0\<close>.
  \<^verbatim>\<open>WORDS\<close>, \<^verbatim>\<open>WORD_LENGTH\<close> and \<^verbatim>\<open>VALID_GUESSES\<close> are the constants of \<^verbatim>\<open>./constants\<close>, which
  are parameters here.
\<close>

definition initialState :: "nat \<Rightarrow> string list \<Rightarrow> state" where
  "initialState WORD_LENGTH VALID_GUESSES =
     \<lparr>level = 0, score = 0, hintCost = 5, solutions = [], guesses = [],
      currentGuess = replicate WORD_LENGTH (Some []), activeTileIndex = 0,
      gameStatus = Playing, solvedIndices = [], revealedHints = [],
      hintedSolutionIndex = None, shakeRow = False, toast = None,
      validGuessesSet = set (filter (eligible WORD_LENGTH) VALID_GUESSES)\<rparr>"

definition mount ::
  "nat \<Rightarrow> string list \<Rightarrow> string list \<Rightarrow> (nat \<Rightarrow> unit_interval) \<Rightarrow> state option" where
  "mount WORD_LENGTH WORDS VALID_GUESSES random =
     map_option (\<lambda>st. st\<lparr>score := 0\<rparr>)
       (initGame WORD_LENGTH WORDS random (initialState WORD_LENGTH VALID_GUESSES))"

text \<open>
  The events the component reacts to. The three buttons below the keyboard change the
  level or call \<^verbatim>\<open>initGame\<close>; a change of the level re-runs the effects that depend on it.
  \<^verbatim>\<open>DictionaryLoaded\<close> carries the fetched words after normalisation; the two timeouts clear
  the toast and the shake flag.
\<close>

datatype event =
    KeyDown string
  | TileClick nat
  | HintClick unit_interval
  | ProximaFase "nat \<Rightarrow> unit_interval"
  | TentarNovamente "nat \<Rightarrow> unit_interval"
  | ReiniciarDoZero "nat \<Rightarrow> unit_interval"
  | DictionaryLoaded "string list"
  | ToastTimeout
  | ShakeTimeout

fun apply_event :: "nat \<Rightarrow> string list \<Rightarrow> state \<Rightarrow> event \<Rightarrow> state option" where
  "apply_event WORD_LENGTH WORDS st (KeyDown key) = Some (onKeyDown WORD_LENGTH st key)"
| "apply_event WORD_LENGTH WORDS st (TileClick i) =
     (if i < WORD_LENGTH then Some (st\<lparr>activeTileIndex := i\<rparr>) else None)"
| "apply_event WORD_LENGTH WORDS st (HintClick u) =
     (case handleHint WORD_LENGTH u st of Inl e \<Rightarrow> None | Inr st' \<Rightarrow> Some st')"
| "apply_event WORD_LENGTH WORDS st (ProximaFase random) =
     (if gameStatus st = Won
      then initGame WORD_LENGTH WORDS random (st\<lparr>level := level st + 1\<rparr>)
      else None)"
| "apply_event WORD_LENGTH WORDS st (TentarNovamente random) =
     (if gameStatus st = Lost then initGame WORD_LENGTH WORDS random st else None)"
| "apply_event WORD_LENGTH WORDS st (ReiniciarDoZero random) =
     (if gameStatus st = Lost
      then (if level st = 0 then Some st
            else map_option (\<lambda>st'. st'\<lparr>score := 0\<rparr>)
                   (initGame WORD_LENGTH WORDS random (st\<lparr>level := 0\<rparr>)))
      else None)"
| "apply_event WORD_LENGTH WORDS st (DictionaryLoaded processedWords) =
     Some (st\<lparr>validGuessesSet :=
                validGuessesSet st \<union>
                {w \<in> set processedWords.
                   length w = WORD_LENGTH \<and> w \<noteq> [] \<and>
                   list_all (\<lambda>c. c \<in> set ''ABCDEFGHIJKLMNOPQRSTUVWXYZ'') w}\<rparr>)"
| "apply_event WORD_LENGTH WORDS st ToastTimeout = Some (st\<lparr>toast := None\<rparr>)"
| "apply_event WORD_LENGTH WORDS st ShakeTimeout = Some (st\<lparr>shakeRow := False\<rparr>)"

inductive reachable :: "nat \<Rightarrow> string list \<Rightarrow> string list \<Rightarrow> state \<Rightarrow> bool"
  for WORD_LENGTH :: nat and WORDS :: "string list" and VALID_GUESSES :: "string list" where
  mounted: "mount WORD_LENGTH WORDS VALID_GUESSES random = Some st
            \<Longrightarrow> reachable WORD_LENGTH WORDS VALID_GUESSES st"
| event: "reachable WORD_LENGTH WORDS VALID_GUESSES st
          \<Longrightarrow> apply_event WORD_LENGTH WORDS st ev = Some st'
          \<Longrightarrow> reachable WORD_LENGTH WORDS VALID_GUESSES st'"

section \<open>Notions of the specification\<close>

text \<open>
  A submission is accepted when the ENTER branch passes both rejections: the game is being
  played, the buffer is complete, and the joined word is in the validation vocabulary.
\<close>

definition accepted :: "nat \<Rightarrow> state \<Rightarrow> bool" where
  "accepted L st =
     (gameStatus st = Playing \<and> length (js_join (currentGuess st)) = L \<and>
      Some [] \<notin> set (currentGuess st) \<and> js_join (currentGuess st) \<in> validGuessesSet st)"

text \<open>The points of the specification for a solve after \<open>attemptsBefore\<close> accepted submissions.\<close>

definition spec_points :: "nat \<Rightarrow> int" where
  "spec_points attemptsBefore = max 10 (100 - 15 * int attemptsBefore)"

text \<open>Every entry of the solved mask is true.\<close>

definition all_solved :: "state \<Rightarrow> bool" where
  "all_solved st = list_all (\<lambda>b. b = Some True) (solvedIndices st)"

text \<open>The boards that a submitted word solves: unsolved, with the word as solution.\<close>

definition solved_by :: "state \<Rightarrow> string \<Rightarrow> nat list" where
  "solved_by st word =
     filter (\<lambda>i. \<not> truthy (js_get (solvedIndices st) i) \<and> solutions st ! i = Some word)
       [0..<length (solutions st)]"

text \<open>
  The fields of the game state proper, as the specification lists them, and the hint state.
  The toast and the shake flag are the transient feedback.
\<close>

definition same_game :: "state \<Rightarrow> state \<Rightarrow> bool" where
  "same_game st st' =
     (guesses st' = guesses st \<and> currentGuess st' = currentGuess st \<and>
      activeTileIndex st' = activeTileIndex st \<and> solvedIndices st' = solvedIndices st \<and>
      score st' = score st \<and> hintCost st' = hintCost st \<and> gameStatus st' = gameStatus st \<and>
      level st' = level st \<and> solutions st' = solutions st \<and>
      validGuessesSet st' = validGuessesSet st)"

definition same_hints :: "state \<Rightarrow> state \<Rightarrow> bool" where
  "same_hints st st' =
     (revealedHints st' = revealedHints st \<and> hintedSolutionIndex st' = hintedSolutionIndex st)"

subsection \<open>The keyboard map of the specification\<close>

text \<open>
  The priority of the specification, correct over present over absent; no status and the
  status of an untouched tile rank lowest. \<open>spec_better\<close> keeps the running status unless
  the new one ranks higher. The evidence for a letter is listed in the order of the
  specification's fold: every guess, against every board whose solved entry is not true,
  every position of the guess that holds the letter.
\<close>

fun spec_priority :: "CharStatus option \<Rightarrow> nat" where
  "spec_priority (Some Correct) = 3"
| "spec_priority (Some Present) = 2"
| "spec_priority (Some Absent) = 1"
| "spec_priority (Some Initial) = 0"
| "spec_priority None = 0"

definition spec_better :: "CharStatus option \<Rightarrow> CharStatus option \<Rightarrow> CharStatus option" where
  "spec_better running new = (if spec_priority running < spec_priority new then new else running)"

definition letter_evidence :: "CharStatus option list \<Rightarrow> string \<Rightarrow> char \<Rightarrow> CharStatus option list" where
  "letter_evidence statuses guess letter =
     map (\<lambda>(i, c). js_get statuses i) (filter (\<lambda>(i, c). c = letter) (enumerate 0 guess))"

definition board_evidence ::
  "nat \<Rightarrow> bool option list \<Rightarrow> string \<Rightarrow> char \<Rightarrow> nat \<times> string option \<Rightarrow> CharStatus option list" where
  "board_evidence L solved guess letter board =
     (case board of
        (solIndex, None) \<Rightarrow> []
      | (solIndex, Some sol) \<Rightarrow>
          if truthy (js_get solved solIndex) then []
          else letter_evidence (getGuessStatuses L guess sol) guess letter)"

definition evidence :: "nat \<Rightarrow> state \<Rightarrow> char \<Rightarrow> CharStatus option list" where
  "evidence L st letter =
     concat (map (\<lambda>guess. concat (map (board_evidence L (solvedIndices st) guess letter)
                                     (enumerate 0 (solutions st))))
               (guesses st))"

definition spec_keyboard :: "nat \<Rightarrow> state \<Rightarrow> char \<Rightarrow> CharStatus option" where
  "spec_keyboard L st letter = foldl spec_better None (evidence L st letter)"

subsection \<open>The invariant of the reachable states\<close>

definition state_invariant :: "state \<Rightarrow> bool" where
  "state_invariant st =
     (length (solutions st) = level st + 1 \<and>
      length (solvedIndices st) = level st + 1 \<and>
      None \<notin> set (solvedIndices st) \<and>
      distinct (solutions st) \<and>
      (gameStatus st = Won) = all_solved st \<and>
      (gameStatus st \<noteq> Lost \<or> length (guesses st) \<ge> 6 + level st))"

text \<open>
  The buffer has \<open>WORD_LENGTH\<close> slots and the cursor is on one of them; the keys of the
  revealed hints are slot indices in ascending order; every board has a solution.
\<close>

definition session_invariant :: "nat \<Rightarrow> state \<Rightarrow> bool" where
  "session_invariant L st =
     (length (currentGuess st) = L \<and> activeTileIndex st < L \<and>
      sorted_wrt (<) (map fst (revealedHints st)) \<and>
      (\<forall>k\<in>fst ` set (revealedHints st). k < L) \<and>
      None \<notin> set (solutions st))"

text \<open>
  The hint state of a session: while no board is targeted nothing is revealed, and a
  targeted board is the first unsolved board.
\<close>

definition hint_invariant :: "state \<Rightarrow> bool" where
  "hint_invariant st =
     (case hintedSolutionIndex st of
        None \<Rightarrow> revealedHints st = []
      | Some h \<Rightarrow> js_findIndex (\<lambda>solved index. \<not> truthy solved) (solvedIndices st) = int h)"

subsection \<open>The boards hit by a submission\<close>

text \<open>
  The indices, from \<open>k\<close> on, of the boards that the loop of the ENTER branch marks as solved
  when it runs over \<open>sols\<close> with the mask \<open>msk\<close>.
\<close>

definition solve_hits :: "string \<Rightarrow> bool option list \<Rightarrow> string option list \<Rightarrow> nat \<Rightarrow> nat list" where
  "solve_hits w msk sols k =
     filter (\<lambda>j. \<not> truthy (js_get msk j) \<and> sols ! (j - k) = Some w) [k..<k + length sols]"

subsection \<open>A sample session\<close>

text \<open>
  A session on a two-word pool, used to evaluate the handlers on concrete states: the
  player wins level 0 with the first guess, and on level 1 solves the first board with the
  first guess. The random source returns \<open>0\<close>, then \<open>1/2\<close>. \<open>slots w\<close> is the buffer that holds
  the letters of \<open>w\<close>.
\<close>

definition example_WORDS :: "string list" where
  "example_WORDS = [''TERMO'', ''MUNDO'']"

definition example_VALID_GUESSES :: "string list" where
  "example_VALID_GUESSES = [''TERMO'', ''MUNDO'', ''TURMA'']"

definition example_random :: "nat \<Rightarrow> unit_interval" where
  "example_random n = unit_frac n 2"

definition slots :: "string \<Rightarrow> string option list" where
  "slots w = map (\<lambda>c. Some [c]) w"

text \<open>The state after the first render, and the state at the start of level 1.\<close>

definition example_mounted :: state where
  "example_mounted =
     \<lparr>level = 0, score = 0, hintCost = 5,
      solutions = [Some ''TERMO''], guesses = [],
      currentGuess = replicate 5 (Some []), activeTileIndex = 0,
      gameStatus = Playing, solvedIndices = [Some False], revealedHints = [],
      hintedSolutionIndex = None, shakeRow = False, toast = None,
      validGuessesSet = {''TERMO'', ''MUNDO'', ''TURMA''}\<rparr>"

definition example_level1 :: state where
  "example_level1 =
     \<lparr>level = 1, score = 100, hintCost = 5,
      solutions = [Some ''TERMO'', Some ''MUNDO''], guesses = [],
      currentGuess = replicate 5 (Some []), activeTileIndex = 0,
      gameStatus = Playing, solvedIndices = [Some False, Some False], revealedHints = [],
      hintedSolutionIndex = None, shakeRow = False, toast = None,
      validGuessesSet = {''TERMO'', ''MUNDO'', ''TURMA''}\<rparr>"

text \<open>The state on level 1 after the guess TERMO, which solves the first board.\<close>

definition example_state :: state where
  "example_state =
     \<lparr>level = 1, score = 200, hintCost = 5,
      solutions = [Some ''TERMO'', Some ''MUNDO''], guesses = [''TERMO''],
      currentGuess = replicate 5 (Some []), activeTileIndex = 0,
      gameStatus = Playing, solvedIndices = [Some True, Some False], revealedHints = [],
      hintedSolutionIndex = None, shakeRow = False, toast = Some (Pontos 100),
      validGuessesSet = {''TERMO'', ''MUNDO'', ''TURMA''}\<rparr>"

text \<open>A sequence of events, applied in order; \<open>example_events\<close> leads to \<open>example_state\<close>.\<close>

fun run_events :: "nat \<Rightarrow> string list \<Rightarrow> state \<Rightarrow> event list \<Rightarrow> state option" where
  "run_events WORD_LENGTH WORDS st [] = Some st"
| "run_events WORD_LENGTH WORDS st (ev # evs) =
     (case apply_event WORD_LENGTH WORDS st ev of
        None \<Rightarrow> None
      | Some st' \<Rightarrow> run_events WORD_LENGTH WORDS st' evs)"

definition type_word :: "string \<Rightarrow> event list" where
  "type_word w = map (\<lambda>c. KeyDown [c]) w @ [KeyDown ''ENTER'']"

definition example_events :: "event list" where
  "example_events = type_word ''TERMO'' @ [ProximaFase example_random] @ type_word ''TERMO''"

section \<open>Properties of the JavaScript array operations\<close>

lemma js_findIndex_from_find:
  "js_findIndex_from p xs k =
     (case List.find (\<lambda>j. p (xs ! (j - k)) j) [k..<k + length xs] of
        None \<Rightarrow> - 1 | Some j \<Rightarrow> int j)"
proof (induction xs arbitrary: k)
  case Nil
  then show ?case by simp
next
  case (Cons x xs)
  have upt: "[k..<k + length (x # xs)] = k # [Suc k..<Suc k + length xs]"
    by (subst upt_rec) simp
  have cong: "List.find (\<lambda>j. p ((x # xs) ! (j - k)) j) [Suc k..<Suc k + length xs]
            = List.find (\<lambda>j. p (xs ! (j - Suc k)) j) [Suc k..<Suc k + length xs]"
    by (rule find_cong) (auto simp: nth_Cons')
  show ?case
    unfolding upt using Cons.IH [of "Suc k"] cong by simp
qed

lemma js_findIndex_find:
  "js_findIndex p xs =
     (case List.find (\<lambda>j. p (xs ! j) j) [0..<length xs] of None \<Rightarrow> - 1 | Some j \<Rightarrow> int j)"
  using js_findIndex_from_find [of p xs 0] by (simp add: js_findIndex_def)

section \<open>The scorer computes the reference algorithm\<close>

lemma js_forEach_Nil: "js_forEach body [] s = s"
  by (simp add: js_forEach_def)

lemma js_forEach_snoc:
  "js_forEach body (xs @ [x]) s = body (js_forEach body xs s) (length xs, x)"
  by (simp add: js_forEach_def enumerate_append_eq)

lemma enumerate_fold_Cons:
  "fold (\<lambda>p acc. body acc p) (enumerate k (x # xs)) s =
     fold (\<lambda>p acc. body acc p) (enumerate (Suc k) xs) (body s (k, x))"
  by simp

lemma green_fold:
  assumes "length g = L" and "length s = L" and "n \<le> L"
  shows "js_forEach (green_step s) (take n g) (replicate L (Some Absent), replicate L False)
       = (map (\<lambda>i. if i < n \<and> g ! i = s ! i then Some Correct else Some Absent) [0..<L],
          map (\<lambda>i. i < n \<and> g ! i = s ! i) [0..<L])"
  using assms(3)
proof (induction n)
  case 0
  show ?case
    by (simp add: js_forEach_Nil map_replicate_const)
next
  case (Suc n)
  then have n: "n < L" by simp
  have tk: "take (Suc n) g = take n g @ [g ! n]"
    using n assms(1) by (simp add: take_Suc_conv_app_nth)
  have len: "length (take n g) = n"
    using n assms(1) by simp
  have IH: "js_forEach (green_step s) (take n g) (replicate L (Some Absent), replicate L False)
       = (map (\<lambda>i. if i < n \<and> g ! i = s ! i then Some Correct else Some Absent) [0..<L],
          map (\<lambda>i. i < n \<and> g ! i = s ! i) [0..<L])"
    using Suc.IH n by simp
  have nth_s: "js_nth s n = Some (s ! n)"
    using n assms(2) by (simp add: js_nth_def)
  show ?case
  proof (cases "g ! n = s ! n")
    case True
    have a: "js_set (map (\<lambda>i. if i < n \<and> g ! i = s ! i then Some Correct else Some Absent) [0..<L]) n
               (Some Correct)
           = map (\<lambda>i. if i < Suc n \<and> g ! i = s ! i then Some Correct else Some Absent) [0..<L]"
      using n True by (auto simp: js_set_def list_eq_iff_nth_eq nth_list_update less_Suc_eq)
    have b: "(map (\<lambda>i. i < n \<and> g ! i = s ! i) [0..<L])[n := True]
           = map (\<lambda>i. i < Suc n \<and> g ! i = s ! i) [0..<L]"
      using n True by (auto simp: list_eq_iff_nth_eq nth_list_update less_Suc_eq)
    show ?thesis
      unfolding tk js_forEach_snoc len IH using True nth_s a b by simp
  next
    case False
    have a: "map (\<lambda>i. if i < n \<and> g ! i = s ! i then Some Correct else Some Absent) [0..<L]
           = map (\<lambda>i. if i < Suc n \<and> g ! i = s ! i then Some Correct else Some Absent) [0..<L]"
      using False by (auto simp: less_Suc_eq)
    have b: "map (\<lambda>i. i < n \<and> g ! i = s ! i) [0..<L]
           = map (\<lambda>i. i < Suc n \<and> g ! i = s ! i) [0..<L]"
      using False by (auto simp: less_Suc_eq)
    show ?thesis
      unfolding tk js_forEach_snoc len IH using False nth_s a b by auto
  qed
qed

lemma yellow_fold:
  assumes g: "length g = L" and s: "length s = L"
  shows "k \<le> L \<Longrightarrow> length st = L \<Longrightarrow> length tk = L \<Longrightarrow>
         (\<forall>i<L. k \<le> i \<longrightarrow> st ! i = (if g ! i = s ! i then Some Correct else Some Absent)) \<Longrightarrow>
         (\<forall>j<L. tk ! j = (j \<in> C)) \<Longrightarrow>
         fst (fold (\<lambda>p acc. yellow_step s acc p) (enumerate k (drop k g)) (st, tk))
           = take k st @ map Some (spec_pass2 L g s [k..<L] C)"
proof (induction "L - k" arbitrary: k st tk C)
  case 0
  then show ?case using g by simp
next
  case (Suc m)
  then have k: "k < L" by simp
  have dr: "drop k g = g ! k # drop (Suc k) g"
    using k g by (simp add: Cons_nth_drop_Suc)
  have up: "[k..<L] = k # [Suc k..<L]"
    using k by (simp add: upt_conv_Cons)
  have m: "m = L - Suc k" using Suc.hyps(2) by simp
  have getk: "js_get st k = st ! k"
    using k Suc.prems by (simp add: js_get_def)
  have stk: "st ! k = (if g ! k = s ! k then Some Correct else Some Absent)"
    using Suc.prems(4) k by simp
  have fi: "js_findIndex (\<lambda>sLetter index. sLetter = g ! k \<and> js_nth tk index \<noteq> Some True) s
          = (case spec_lowest_unconsumed L s C (g ! k) of None \<Rightarrow> - 1 | Some j \<Rightarrow> int j)"
  proof -
    have "List.find (\<lambda>j. s ! j = g ! k \<and> js_nth tk j \<noteq> Some True) [0..<length s]
        = List.find (\<lambda>j. j \<notin> C \<and> s ! j = g ! k) [0..<L]"
      using s Suc.prems(3,5) by (intro find_cong) (auto simp: js_nth_def)
    then show ?thesis
      by (simp add: js_findIndex_find spec_lowest_unconsumed_def)
  qed
  have later: "\<forall>i<L. Suc k \<le> i \<longrightarrow> st ! i = (if g ! i = s ! i then Some Correct else Some Absent)"
    using Suc.prems(4) by simp
  show ?case
  proof (cases "g ! k = s ! k")
    case True
    have step: "yellow_step s (st, tk) (k, g ! k) = (st, tk)"
      using True getk stk by simp
    have "fst (fold (\<lambda>p acc. yellow_step s acc p) (enumerate (Suc k) (drop (Suc k) g)) (st, tk))
           = take (Suc k) st @ map Some (spec_pass2 L g s [Suc k..<L] C)"
      using Suc.prems(2,3,5) k later by (intro Suc.hyps(1) m) auto
    moreover have "take (Suc k) st = take k st @ [Some Correct]"
      using k Suc.prems(2) True stk by (simp add: take_Suc_conv_app_nth)
    ultimately show ?thesis
      unfolding dr up enumerate_fold_Cons step using True by simp
  next
    case False
    show ?thesis
    proof (cases "spec_lowest_unconsumed L s C (g ! k)")
      case None
      have step: "yellow_step s (st, tk) (k, g ! k) = (st, tk)"
        using False getk stk fi None by simp
      have "fst (fold (\<lambda>p acc. yellow_step s acc p) (enumerate (Suc k) (drop (Suc k) g)) (st, tk))
             = take (Suc k) st @ map Some (spec_pass2 L g s [Suc k..<L] C)"
        using Suc.prems(2,3,5) k later by (intro Suc.hyps(1) m) auto
      moreover have "take (Suc k) st = take k st @ [Some Absent]"
        using k Suc.prems(2) False stk by (simp add: take_Suc_conv_app_nth)
      ultimately show ?thesis
        unfolding dr up enumerate_fold_Cons step using False None by simp
    next
      case (Some j)
      then have j: "j < L" "j \<notin> C" "s ! j = g ! k"
        by (auto simp: spec_lowest_unconsumed_def find_Some_iff)
      have step: "yellow_step s (st, tk) (k, g ! k) = (st[k := Some Present], tk[j := True])"
        using False getk stk fi Some k Suc.prems(2) by (simp add: js_set_def)
      have tk': "\<forall>j'<L. tk[j := True] ! j' = (j' \<in> insert j C)"
        using Suc.prems(3,5) j(1) by (simp add: nth_list_update)
      have later': "\<forall>i<L. Suc k \<le> i \<longrightarrow>
                      st[k := Some Present] ! i = (if g ! i = s ! i then Some Correct else Some Absent)"
        using later by simp
      have "fst (fold (\<lambda>p acc. yellow_step s acc p) (enumerate (Suc k) (drop (Suc k) g))
                   (st[k := Some Present], tk[j := True]))
             = take (Suc k) (st[k := Some Present]) @ map Some (spec_pass2 L g s [Suc k..<L] (insert j C))"
        using Suc.prems(2,3) k later' tk' by (intro Suc.hyps(1) m) auto
      moreover have "take (Suc k) (st[k := Some Present]) = take k st @ [Some Present]"
        using k Suc.prems(2) by (simp add: take_Suc_conv_app_nth)
      ultimately show ?thesis
        unfolding dr up enumerate_fold_Cons step using False Some by simp
    qed
  qed
qed

text \<open>
  Claim C1. For every guess and solution of length \<open>L\<close>, \<open>getGuessStatuses\<close> returns the status
  sequence of the two-pass reference algorithm of the specification: pass 1 marks the equal
  positions correct and consumes them, pass 2 gives each remaining guess index, from left to
  right, the lowest unconsumed solution position that holds its letter (present), or absent
  when there is none.
\<close>

theorem getGuessStatuses_refines_spec:
  assumes "length guess = L" and "length solution = L"
  shows "getGuessStatuses L guess solution = map Some (spec_score L guess solution)"
proof -
  have p1: "js_forEach (green_step solution) guess (replicate L (Some Absent), map (\<lambda>_. False) solution)
       = (map (\<lambda>i. if guess ! i = solution ! i then Some Correct else Some Absent) [0..<L],
          map (\<lambda>i. guess ! i = solution ! i) [0..<L])"
    using green_fold [OF assms, of L] assms by (simp add: map_replicate_const cong: map_cong)
  have "fst (fold (\<lambda>p acc. yellow_step solution acc p) (enumerate 0 (drop 0 guess))
               (map (\<lambda>i. if guess ! i = solution ! i then Some Correct else Some Absent) [0..<L],
                map (\<lambda>i. guess ! i = solution ! i) [0..<L]))
      = take 0 (map (\<lambda>i. if guess ! i = solution ! i then Some Correct else Some Absent) [0..<L])
        @ map Some (spec_pass2 L guess solution [0..<L] (spec_pass1 L guess solution))"
    by (rule yellow_fold [OF assms]) (auto simp: spec_pass1_def)
  then show ?thesis
    unfolding getGuessStatuses_def Let_def p1 by (simp add: js_forEach_def spec_score_def)
qed

text \<open>The guess SPEED against the solution ERASE, the example of the specification.\<close>

theorem getGuessStatuses_refines_spec_witness:
  "length ''SPEED'' = 5 \<and> length ''ERASE'' = 5 \<and>
   getGuessStatuses 5 ''SPEED'' ''ERASE'' =
     map Some [Present, Absent, Present, Present, Absent]"
  using getGuessStatuses_refines_spec [of "''SPEED''" 5 "''ERASE''"]
  by (simp add: spec_score_def spec_pass1_def spec_lowest_unconsumed_def upt_conv_Cons)

section \<open>Accepted submissions\<close>

lemma js_get_js_set: "js_get (js_set xs i v) j = (if j = i then v else js_get xs j)"
  by (auto simp: js_get_def js_set_def nth_append nth_list_update)

lemma length_js_set: "length (js_set xs i v) = max (length xs) (Suc i)"
  by (auto simp: js_set_def)

lemma js_get_spread_truthy: "truthy (js_get (js_spread_bool m) j) = truthy (js_get m j)"
  by (auto simp: js_get_def js_spread_bool_def truthy_def split: option.splits)

lemma length_js_spread_bool: "length (js_spread_bool m) = length m"
  by (simp add: js_spread_bool_def)

lemma None_notin_js_spread_bool: "None \<notin> set (js_spread_bool m)"
  by (auto simp: js_spread_bool_def split: option.splits)

lemma solve_hits_Cons:
  "solve_hits w msk (x # xs) k =
     (if \<not> truthy (js_get msk k) \<and> x = Some w then [k] else []) @ solve_hits w msk xs (Suc k)"
proof -
  have upt: "[k..<k + length (x # xs)] = k # [Suc k..<Suc k + length xs]"
    by (subst upt_rec) simp
  have "\<And>y. filter (\<lambda>j. \<not> truthy (js_get msk j) \<and> (y # xs) ! (j - k) = Some w) [Suc k..<Suc k + length xs]
      = filter (\<lambda>j. \<not> truthy (js_get msk j) \<and> xs ! (j - Suc k) = Some w) [Suc k..<Suc k + length xs]"
    by (rule filter_cong) (auto simp: nth_Cons')
  then show ?thesis
    unfolding solve_hits_def upt by (simp del: upt_Suc)
qed

lemma solve_hits_mask_cong:
  assumes "\<And>j. k \<le> j \<Longrightarrow> truthy (js_get msk' j) = truthy (js_get msk j)"
  shows "solve_hits w msk' sols k = solve_hits w msk sols k"
  unfolding solve_hits_def using assms by (intro filter_cong) auto

lemma solve_fold:
  "fold (\<lambda>p acc. solve_step w a acc p) (enumerate k sols) (msk, tp, sc) =
     (msk', tp', sc') \<Longrightarrow>
   tp' = tp + max 10 (100 - int a * 15) * int (length (solve_hits w msk sols k)) \<and>
   sc' = sc + max 10 (100 - int a * 15) * int (length (solve_hits w msk sols k)) \<and>
   (\<forall>j. js_get msk' j = (if j \<in> set (solve_hits w msk sols k) then Some True else js_get msk j)) \<and>
   (k + length sols \<le> length msk \<longrightarrow> length msk' = length msk)"
proof (induction sols arbitrary: k msk tp sc)
  case Nil
  then show ?case by (simp add: solve_hits_def)
next
  case (Cons x xs)
  let ?pts = "max 10 (100 - int a * 15)"
  show ?case
  proof (cases "\<not> truthy (js_get msk k) \<and> x = Some w")
    case True
    let ?m1 = "js_set msk k (Some True)"
    have step: "solve_step w a (msk, tp, sc) (k, x) = (?m1, tp + ?pts, sc + ?pts)"
      using True by (auto simp: Let_def)
    have rest: "fold (\<lambda>p acc. solve_step w a acc p) (enumerate (Suc k) xs) (?m1, tp + ?pts, sc + ?pts)
                = (msk', tp', sc')"
      using Cons.prems step by simp
    have hits: "solve_hits w ?m1 xs (Suc k) = solve_hits w msk xs (Suc k)"
      by (rule solve_hits_mask_cong) (simp add: js_get_js_set)
    have notin: "k \<notin> set (solve_hits w msk xs (Suc k))"
      by (simp add: solve_hits_def)
    from Cons.IH [OF rest] show ?thesis
      unfolding hits solve_hits_Cons using True notin
      by (auto simp: js_get_js_set length_js_set algebra_simps)
  next
    case False
    have step: "solve_step w a (msk, tp, sc) (k, x) = (msk, tp, sc)"
      using False by auto
    have rest: "fold (\<lambda>p acc. solve_step w a acc p) (enumerate (Suc k) xs) (msk, tp, sc)
                = (msk', tp', sc')"
      using Cons.prems step by simp
    from Cons.IH [OF rest] show ?thesis
      unfolding solve_hits_Cons using False by auto
  qed
qed

lemma solve_hits_solved_by:
  "solve_hits w (js_spread_bool (solvedIndices st)) (solutions st) 0 = solved_by st w"
  by (simp add: solve_hits_def solved_by_def js_get_spread_truthy)

lemma solve_forEach:
  assumes "js_forEach (solve_step w (length (guesses st))) (solutions st)
             (js_spread_bool (solvedIndices st), 0, score st) = (msk', tp', sc')"
  shows "tp' = spec_points (length (guesses st)) * int (length (solved_by st w))"
    and "sc' = score st + spec_points (length (guesses st)) * int (length (solved_by st w))"
    and "truthy (js_get msk' j) = (j \<in> set (solved_by st w) \<or> truthy (js_get (solvedIndices st) j))"
    and "length (solutions st) \<le> length (solvedIndices st) \<Longrightarrow> length msk' = length (solvedIndices st)"
    and "length (solutions st) \<le> length (solvedIndices st) \<Longrightarrow> None \<notin> set msk'"
proof -
  note sf = solve_fold [OF assms [unfolded js_forEach_def], unfolded solve_hits_solved_by]
  have pts: "max 10 (100 - int (length (guesses st)) * 15) = spec_points (length (guesses st))"
    by (simp add: spec_points_def mult.commute)
  show "tp' = spec_points (length (guesses st)) * int (length (solved_by st w))"
    using sf pts by simp
  show "sc' = score st + spec_points (length (guesses st)) * int (length (solved_by st w))"
    using sf pts by simp
  show "truthy (js_get msk' j) = (j \<in> set (solved_by st w) \<or> truthy (js_get (solvedIndices st) j))"
    using sf by (simp add: js_get_spread_truthy) (simp add: truthy_def)
  assume le: "length (solutions st) \<le> length (solvedIndices st)"
  then show len: "length msk' = length (solvedIndices st)"
    using sf by (simp add: length_js_spread_bool)
  show "None \<notin> set msk'"
  proof
    assume "None \<in> set msk'"
    then obtain j where j: "j < length msk'" "msk' ! j = None"
      by (auto simp: in_set_conv_nth)
    then have "js_get msk' j = None" by (simp add: js_get_def)
    moreover have "js_get (js_spread_bool (solvedIndices st)) j \<noteq> None"
      using j(1) len None_notin_js_spread_bool [of "solvedIndices st"]
      by (auto simp: js_get_def length_js_spread_bool in_set_conv_nth)
    ultimately show False using sf by (auto split: if_splits)
  qed
qed

section \<open>Accepted submissions: points and solved boards\<close>

lemma onKeyDown_ENTER:
  "gameStatus st = Playing \<Longrightarrow> onKeyDown L st ''ENTER'' = enter L st"
  by (simp add: onKeyDown_def)

lemma enter_accepted:
  assumes "accepted L st"
  obtains msk' tp' sc' where
    "js_forEach (solve_step (js_join (currentGuess st)) (length (guesses st))) (solutions st)
       (js_spread_bool (solvedIndices st), 0, score st) = (msk', tp', sc')"
    and "guesses (enter L st) = guesses st @ [js_join (currentGuess st)]"
    and "score (enter L st) = sc'"
    and "solvedIndices (enter L st) = msk'"
    and "level (enter L st) = level st"
    and "solutions (enter L st) = solutions st"
    and "gameStatus (enter L st) =
           (if every_Boolean msk' then Won
            else if 6 + level st \<le> length (guesses st) + 1 then Lost else Playing)"
proof -
  obtain msk' tp' sc' where f:
    "js_forEach (solve_step (js_join (currentGuess st)) (length (guesses st))) (solutions st)
       (js_spread_bool (solvedIndices st), 0, score st) = (msk', tp', sc')"
    by (metis prod_cases3)
  show thesis
  proof (rule that [OF f])
    show "guesses (enter L st) = guesses st @ [js_join (currentGuess st)]"
      using assms by (simp add: enter_def accepted_def Let_def)
    show "score (enter L st) = sc'"
      using assms f by (simp add: enter_def accepted_def Let_def)
    show "solvedIndices (enter L st) = msk'"
      using assms f by (simp add: enter_def accepted_def Let_def)
    show "level (enter L st) = level st"
      using assms by (simp add: enter_def accepted_def Let_def)
    show "solutions (enter L st) = solutions st"
      using assms by (simp add: enter_def accepted_def Let_def)
    show "gameStatus (enter L st) =
           (if every_Boolean msk' then Won
            else if 6 + level st \<le> length (guesses st) + 1 then Lost else Playing)"
      using assms f by (simp add: enter_def accepted_def Let_def)
  qed
qed

lemma filter_upt_eq_single: "i < n \<Longrightarrow> filter (\<lambda>j. j = i) [0..<n] = [i]"
  by (induction n) (auto simp: less_Suc_eq)

lemma solved_by_single:
  assumes "i < length (solutions st)" and "js_get (solvedIndices st) i = Some False"
    and "solutions st ! i = Some w" and "distinct (solutions st)"
  shows "solved_by st w = [i]"
proof -
  have only: "j = i" if "j < length (solutions st)" and "solutions st ! j = Some w" for j
    using that assms(1,3,4) by (metis nth_eq_iff_index_eq)
  have eq: "(\<not> truthy (js_get (solvedIndices st) j) \<and> solutions st ! j = Some w) = (j = i)"
    if "j \<in> set [0..<length (solutions st)]" for j
  proof (cases "j = i")
    case True
    then show ?thesis using assms(2,3) by (simp add: truthy_def)
  next
    case False
    then have "solutions st ! j \<noteq> Some w" using only [of j] that by auto
    then show ?thesis using False by simp
  qed
  have "filter (\<lambda>j. \<not> truthy (js_get (solvedIndices st) j) \<and> solutions st ! j = Some w)
          [0..<length (solutions st)]
      = filter (\<lambda>j. j = i) [0..<length (solutions st)]"
    by (rule filter_cong [OF refl eq])
  then show ?thesis
    using assms(1) by (simp add: solved_by_def filter_upt_eq_single)
qed

text \<open>
  Claim C2. For every accepted submission and every board index \<open>i\<close> whose solved entry is
  false and whose solution is the submitted word, the entry is set to true and exactly
  \<open>max(10, 100 - 15 * attemptsBefore)\<close> points are added to the score, \<open>attemptsBefore\<close> being
  the number of guesses submitted before. The solutions of a level are pairwise distinct.
\<close>

theorem submission_awards_points:
  assumes "accepted L st"
    and "i < length (solutions st)"
    and "js_get (solvedIndices st) i = Some False"
    and "solutions st ! i = Some (js_join (currentGuess st))"
    and "distinct (solutions st)"
  shows "js_get (solvedIndices (onKeyDown L st ''ENTER'')) i = Some True \<and>
         score (onKeyDown L st ''ENTER'') =
           score st + max 10 (100 - 15 * int (length (guesses st)))"
proof -
  from assms(1) obtain msk' tp' sc' where
    f: "js_forEach (solve_step (js_join (currentGuess st)) (length (guesses st))) (solutions st)
          (js_spread_bool (solvedIndices st), 0, score st) = (msk', tp', sc')"
    and sc: "score (enter L st) = sc'" and m: "solvedIndices (enter L st) = msk'"
    by (rule enter_accepted)
  have one: "solved_by st (js_join (currentGuess st)) = [i]"
    using assms(2-5) by (rule solved_by_single)
  have "truthy (js_get msk' i)"
    using solve_forEach(3) [OF f, of i] one by simp
  moreover have "sc' = score st + spec_points (length (guesses st))"
    using solve_forEach(2) [OF f] one by simp
  moreover have "onKeyDown L st ''ENTER'' = enter L st"
    using assms(1) by (simp add: onKeyDown_ENTER accepted_def)
  ultimately show ?thesis
    using sc m by (simp add: truthy_def spec_points_def)
qed

text \<open>
  Claim C10. A complete word of the validation vocabulary is accepted whatever the guesses
  already made and whatever boards are already solved: it is appended to the guesses, the
  points go to the boards it solves, which are boards whose solved entry was not true, so
  none are awarded when every board with this solution is already solved, and no solved
  entry that was true stops being true.
\<close>

theorem resubmission_accepted:
  assumes "accepted L st"
  shows "guesses (onKeyDown L st ''ENTER'') = guesses st @ [js_join (currentGuess st)] \<and>
         score (onKeyDown L st ''ENTER'') =
           score st + spec_points (length (guesses st)) *
                      int (length (solved_by st (js_join (currentGuess st)))) \<and>
         ((\<forall>i<length (solutions st).
             solutions st ! i = Some (js_join (currentGuess st))
               \<longrightarrow> truthy (js_get (solvedIndices st) i))
          \<longrightarrow> score (onKeyDown L st ''ENTER'') = score st) \<and>
         (\<forall>i. truthy (js_get (solvedIndices st) i)
               \<longrightarrow> truthy (js_get (solvedIndices (onKeyDown L st ''ENTER'')) i))"
proof -
  from assms(1) obtain msk' tp' sc' where
    f: "js_forEach (solve_step (js_join (currentGuess st)) (length (guesses st))) (solutions st)
          (js_spread_bool (solvedIndices st), 0, score st) = (msk', tp', sc')"
    and g: "guesses (enter L st) = guesses st @ [js_join (currentGuess st)]"
    and sc: "score (enter L st) = sc'" and m: "solvedIndices (enter L st) = msk'"
    by (rule enter_accepted)
  have e: "onKeyDown L st ''ENTER'' = enter L st"
    using assms(1) by (simp add: onKeyDown_ENTER accepted_def)
  have none: "solved_by st (js_join (currentGuess st)) = []"
    if "\<forall>i<length (solutions st).
          solutions st ! i = Some (js_join (currentGuess st)) \<longrightarrow> truthy (js_get (solvedIndices st) i)"
    using that by (auto simp: solved_by_def filter_empty_conv)
  show ?thesis
    unfolding e g sc m
    using solve_forEach(2) [OF f] solve_forEach(3) [OF f] none by auto
qed

section \<open>The buffer after a submission\<close>

lemma fold_js_set_nth:
  "distinct (map fst rh) \<Longrightarrow> \<forall>k\<in>fst ` set rh. k < length acc \<Longrightarrow>
   length (fold (\<lambda>(idx, char) acc. js_set acc idx char) rh acc) = length acc \<and>
   (\<forall>i<length acc.
      fold (\<lambda>(idx, char) acc. js_set acc idx char) rh acc ! i =
        (case map_of rh i of None \<Rightarrow> acc ! i | Some v \<Rightarrow> v))"
proof (induction rh arbitrary: acc)
  case Nil
  then show ?case by simp
next
  case (Cons p rh)
  obtain k v where p: "p = (k, v)" by (cases p)
  have k: "k < length acc" using Cons.prems(2) p by simp
  have set1: "js_set acc k v = acc[k := v]" using k by (simp add: js_set_def)
  have nk: "map_of rh k = None"
    using Cons.prems(1) p by (simp add: map_of_eq_None_iff)
  have IH: "length (fold (\<lambda>(idx, char) acc. js_set acc idx char) rh (acc[k := v])) = length acc \<and>
        (\<forall>i<length acc.
           fold (\<lambda>(idx, char) acc. js_set acc idx char) rh (acc[k := v]) ! i =
             (case map_of rh i of None \<Rightarrow> acc[k := v] ! i | Some v \<Rightarrow> v))"
    using Cons.IH [of "acc[k := v]"] Cons.prems p by simp
  show ?case
    unfolding p using IH nk k by (simp add: set1 nth_list_update split: option.splits)
qed

lemma nextGuess_nth:
  assumes "distinct (map fst rh)" and "\<forall>k\<in>fst ` set rh. k < L"
  shows "length (nextGuess L rh) = L"
    and "i < L \<Longrightarrow> nextGuess L rh ! i = (case map_of rh i of None \<Rightarrow> Some [] | Some v \<Rightarrow> v)"
  using fold_js_set_nth [of rh "replicate L (Some [])"] assms
  by (simp_all add: nextGuess_def split: option.splits)

lemma accepted_example [simp]:
  "w \<in> {''TERMO'', ''MUNDO'', ''TURMA''} \<Longrightarrow>
   accepted 5 (example_state\<lparr>currentGuess := slots w\<rparr>)"
  by (auto simp: accepted_def example_state_def slots_def js_join_def)

theorem submission_awards_points_witness:
  "accepted 5 (example_state\<lparr>currentGuess := slots ''MUNDO''\<rparr>) \<and>
   js_get (solvedIndices (example_state\<lparr>currentGuess := slots ''MUNDO''\<rparr>)) 1 = Some False \<and>
   distinct (solutions (example_state\<lparr>currentGuess := slots ''MUNDO''\<rparr>)) \<and>
   js_get (solvedIndices (onKeyDown 5 (example_state\<lparr>currentGuess := slots ''MUNDO''\<rparr>) ''ENTER'')) 1
     = Some True \<and>
   score (onKeyDown 5 (example_state\<lparr>currentGuess := slots ''MUNDO''\<rparr>) ''ENTER'') = 200 + 85"
proof -
  have a: "accepted 5 (example_state\<lparr>currentGuess := slots ''MUNDO''\<rparr>)"
    by simp
  have b: "js_get (solvedIndices (example_state\<lparr>currentGuess := slots ''MUNDO''\<rparr>)) 1 = Some False"
    by (simp add: example_state_def js_get_def)
  have c: "distinct (solutions (example_state\<lparr>currentGuess := slots ''MUNDO''\<rparr>))"
    by (simp add: example_state_def)
  have d: "solutions (example_state\<lparr>currentGuess := slots ''MUNDO''\<rparr>) ! 1
             = Some (js_join (currentGuess (example_state\<lparr>currentGuess := slots ''MUNDO''\<rparr>)))"
    by (simp add: example_state_def slots_def js_join_def)
  have e: "1 < length (solutions (example_state\<lparr>currentGuess := slots ''MUNDO''\<rparr>))"
    by (simp add: example_state_def)
  have "score (example_state\<lparr>currentGuess := slots ''MUNDO''\<rparr>) = 200"
    and "length (guesses (example_state\<lparr>currentGuess := slots ''MUNDO''\<rparr>)) = 1"
    by (simp_all add: example_state_def)
  then show ?thesis
    using submission_awards_points [OF a e b d c] a b c by simp
qed

theorem resubmission_accepted_witness:
  "accepted 5 (example_state\<lparr>currentGuess := slots ''TERMO''\<rparr>) \<and>
   ''TERMO'' \<in> set (guesses example_state) \<and>
   guesses (onKeyDown 5 (example_state\<lparr>currentGuess := slots ''TERMO''\<rparr>) ''ENTER'')
     = [''TERMO'', ''TERMO''] \<and>
   score (onKeyDown 5 (example_state\<lparr>currentGuess := slots ''TERMO''\<rparr>) ''ENTER'') = 200 \<and>
   truthy (js_get (solvedIndices (onKeyDown 5 (example_state\<lparr>currentGuess := slots ''TERMO''\<rparr>) ''ENTER'')) 0)"
proof -
  have a: "accepted 5 (example_state\<lparr>currentGuess := slots ''TERMO''\<rparr>)"
    by simp
  have sb: "solved_by (example_state\<lparr>currentGuess := slots ''TERMO''\<rparr>) ''TERMO'' = []"
    by (simp add: solved_by_def example_state_def js_get_def truthy_def upt_conv_Cons)
  have j: "js_join (currentGuess (example_state\<lparr>currentGuess := slots ''TERMO''\<rparr>)) = ''TERMO''"
    by (simp add: slots_def js_join_def)
  have f: "guesses (example_state\<lparr>currentGuess := slots ''TERMO''\<rparr>) = [''TERMO'']"
    "score (example_state\<lparr>currentGuess := slots ''TERMO''\<rparr>) = 200"
    "truthy (js_get (solvedIndices (example_state\<lparr>currentGuess := slots ''TERMO''\<rparr>)) 0)"
    by (simp_all add: example_state_def js_get_def truthy_def)
  show ?thesis
    using resubmission_accepted [OF a] a sb f unfolding j
    by (simp add: example_state_def)
qed

section \<open>The buffer and the hints after a submission\<close>

lemma enter_accepted_hints:
  assumes "accepted L st"
    and "M = fst (js_forEach (solve_step (js_join (currentGuess st)) (length (guesses st)))
                   (solutions st) (js_spread_bool (solvedIndices st), 0, score st))"
    and "W = (case hintedSolutionIndex st of None \<Rightarrow> False | Some h \<Rightarrow> truthy (js_get M h))"
  shows "solvedIndices (enter L st) = M"
    and "revealedHints (enter L st) = (if W then [] else revealedHints st)"
    and "hintedSolutionIndex (enter L st) = (if W then None else hintedSolutionIndex st)"
    and "currentGuess (enter L st) =
           (if W then replicate L (Some []) else nextGuess L (revealedHints st))"
    and "activeTileIndex (enter L st) = 0"
  unfolding assms(3) assms(2) using assms(1)
  by (simp_all add: enter_def accepted_def Let_def)

text \<open>
  Claim C5. After every accepted submission: if the hint target is set and that board is
  now solved, the hint state is cleared and the buffer is all empty; otherwise the hint
  state stays and the buffer is all empty except that each slot recorded in the revealed
  hints holds its revealed letter again. The keys of the revealed hints are slot indices,
  pairwise distinct as the keys of an object are.
\<close>

theorem hints_after_submission:
  assumes "accepted L st"
    and "distinct (map fst (revealedHints st))"
    and "\<forall>k\<in>fst ` set (revealedHints st). k < L"
  shows "if (\<exists>t. hintedSolutionIndex st = Some t \<and>
                 truthy (js_get (solvedIndices (onKeyDown L st ''ENTER'')) t))
         then revealedHints (onKeyDown L st ''ENTER'') = [] \<and>
              hintedSolutionIndex (onKeyDown L st ''ENTER'') = None \<and>
              currentGuess (onKeyDown L st ''ENTER'') = replicate L (Some [])
         else same_hints st (onKeyDown L st ''ENTER'') \<and>
              length (currentGuess (onKeyDown L st ''ENTER'')) = L \<and>
              (\<forall>i<L. currentGuess (onKeyDown L st ''ENTER'') ! i =
                        (case map_of (revealedHints st) i of
                           None \<Rightarrow> Some [] | Some letter \<Rightarrow> letter))"
proof -
  have e: "onKeyDown L st ''ENTER'' = enter L st"
    using assms(1) by (simp add: onKeyDown_ENTER accepted_def)
  define M where "M = fst (js_forEach (solve_step (js_join (currentGuess st)) (length (guesses st)))
                   (solutions st) (js_spread_bool (solvedIndices st), 0, score st))"
  define W where "W = (case hintedSolutionIndex st of None \<Rightarrow> False | Some h \<Rightarrow> truthy (js_get M h))"
  note h = enter_accepted_hints [OF assms(1) M_def W_def]
  have W: "W = (\<exists>t. hintedSolutionIndex st = Some t \<and> truthy (js_get M t))"
    by (simp add: W_def split: option.splits)
  show ?thesis
    unfolding e h(1) W [symmetric]
    using h(2-4) nextGuess_nth [OF assms(2,3)]
    by (simp add: same_hints_def)
qed

theorem hints_after_submission_witness:
  "accepted 5 (example_state\<lparr>revealedHints := [(2, Some ''N'')], hintedSolutionIndex := Some 1,
                               currentGuess := slots ''TURMA''\<rparr>) \<and>
   same_hints
     (example_state\<lparr>revealedHints := [(2, Some ''N'')], hintedSolutionIndex := Some 1,
                     currentGuess := slots ''TURMA''\<rparr>)
     (onKeyDown 5 (example_state\<lparr>revealedHints := [(2, Some ''N'')], hintedSolutionIndex := Some 1,
                                   currentGuess := slots ''TURMA''\<rparr>) ''ENTER'') \<and>
   currentGuess
     (onKeyDown 5 (example_state\<lparr>revealedHints := [(2, Some ''N'')], hintedSolutionIndex := Some 1,
                                   currentGuess := slots ''TURMA''\<rparr>) ''ENTER'') ! 2 = Some ''N'' \<and>
   currentGuess
     (onKeyDown 5 (example_state\<lparr>revealedHints := [(2, Some ''N'')], hintedSolutionIndex := Some 1,
                                   currentGuess := slots ''TURMA''\<rparr>) ''ENTER'') ! 3 = Some []"
proof -
  let ?s = "example_state\<lparr>revealedHints := [(2, Some ''N'')], hintedSolutionIndex := Some 1,
                             currentGuess := slots ''TURMA''\<rparr>"
  have a: "accepted 5 ?s"
    by (auto simp: accepted_def example_state_def slots_def js_join_def)
  have b: "distinct (map fst (revealedHints ?s))" by simp
  have c: "\<forall>k\<in>fst ` set (revealedHints ?s). k < 5" by simp
  have p: "gameStatus ?s = Playing" by (simp add: example_state_def)
  have m: "solvedIndices (onKeyDown 5 ?s ''ENTER'') = [Some True, Some False]"
    unfolding onKeyDown_ENTER [OF p] enter_accepted_hints(1) [OF a refl refl]
    by (simp add: example_state_def slots_def js_join_def js_forEach_def js_spread_bool_def
        js_get_def truthy_def)
  have d: "\<not> (\<exists>t. hintedSolutionIndex ?s = Some t \<and>
                 truthy (js_get (solvedIndices (onKeyDown 5 ?s ''ENTER'')) t))"
    unfolding m by (simp add: js_get_def truthy_def)
  have "same_hints ?s (onKeyDown 5 ?s ''ENTER'') \<and>
        length (currentGuess (onKeyDown 5 ?s ''ENTER'')) = 5 \<and>
        (\<forall>i<5. currentGuess (onKeyDown 5 ?s ''ENTER'') ! i =
                  (case map_of (revealedHints ?s) i of None \<Rightarrow> Some [] | Some letter \<Rightarrow> letter))"
    using hints_after_submission [OF a b c] d by presburger
  then show ?thesis
    using a by simp
qed

section \<open>The status of the game\<close>

lemma every_Boolean_all_true:
  "None \<notin> set xs \<Longrightarrow> every_Boolean xs = list_all (\<lambda>b. b = Some True) xs"
proof (induction xs)
  case Nil
  then show ?case by (simp add: every_Boolean_def)
next
  case (Cons a xs)
  then show ?case by (cases a) (auto simp: every_Boolean_def)
qed

lemma status_after_enter:
  assumes "accepted L st" and "length (solutions st) \<le> length (solvedIndices st)"
  shows "gameStatus (enter L st) =
           (if all_solved (enter L st) then Won
            else if 6 + level (enter L st) \<le> length (guesses (enter L st)) then Lost
            else Playing)"
    and "length (solvedIndices (enter L st)) = length (solvedIndices st)"
    and "None \<notin> set (solvedIndices (enter L st))"
proof -
  from assms(1) obtain msk' tp' sc' where
    f: "js_forEach (solve_step (js_join (currentGuess st)) (length (guesses st))) (solutions st)
          (js_spread_bool (solvedIndices st), 0, score st) = (msk', tp', sc')"
    and g: "guesses (enter L st) = guesses st @ [js_join (currentGuess st)]"
    and m: "solvedIndices (enter L st) = msk'"
    and l: "level (enter L st) = level st"
    and s: "gameStatus (enter L st) =
           (if every_Boolean msk' then Won
            else if 6 + level st \<le> length (guesses st) + 1 then Lost else Playing)"
    by (rule enter_accepted)
  have none: "None \<notin> set msk'"
    using solve_forEach(5) [OF f assms(2)] .
  show "gameStatus (enter L st) =
           (if all_solved (enter L st) then Won
            else if 6 + level (enter L st) \<le> length (guesses (enter L st)) then Lost
            else Playing)"
    unfolding s all_solved_def m g l using every_Boolean_all_true [OF none] by simp
  show "length (solvedIndices (enter L st)) = length (solvedIndices st)"
    unfolding m using solve_forEach(4) [OF f assms(2)] .
  show "None \<notin> set (solvedIndices (enter L st))"
    unfolding m by (rule none)
qed

lemma enter_rejected:
  assumes "gameStatus st = Playing" and "\<not> accepted L st"
  shows "enter L st =
           st\<lparr>shakeRow := True,
              toast := Some (if length (js_join (currentGuess st)) \<noteq> L \<or> Some [] \<in> set (currentGuess st)
                             then Palavra_incompleta else Palavra_desconhecida)\<rparr>"
  using assms by (auto simp: enter_def accepted_def Let_def)

lemma state_invariant_cong:
  assumes "level st' = level st" and "solutions st' = solutions st"
    and "solvedIndices st' = solvedIndices st" and "gameStatus st' = gameStatus st"
    and "guesses st' = guesses st"
  shows "state_invariant st' = state_invariant st"
  using assms by (simp add: state_invariant_def all_solved_def)

lemma enter_invariant:
  assumes "state_invariant st" and "gameStatus st = Playing"
  shows "state_invariant (enter L st)"
proof (cases "accepted L st")
  case True
  have le: "length (solutions st) \<le> length (solvedIndices st)"
    using assms(1) by (simp add: state_invariant_def)
  from True obtain msk' tp' sc' where
    l: "level (enter L st) = level st" and so: "solutions (enter L st) = solutions st"
    by (rule enter_accepted)
  note st = status_after_enter [OF True le]
  show ?thesis
    using assms(1) st l so
    by (auto simp: state_invariant_def split: if_splits)
next
  case False
  show ?thesis
    unfolding enter_rejected [OF assms(2) False]
    using assms(1) by (simp add: state_invariant_def all_solved_def)
qed

lemma onKeyDown_invariant:
  assumes "state_invariant st"
  shows "state_invariant (onKeyDown L st key)"
proof (cases "gameStatus st = Playing \<and> key = ''ENTER''")
  case True
  then show ?thesis
    using enter_invariant [OF assms, of L] by (simp add: onKeyDown_def)
next
  case False
  have "state_invariant (onKeyDown L st key) = state_invariant st"
  proof (rule state_invariant_cong)
    show "level (onKeyDown L st key) = level st"
      using False by (simp add: onKeyDown_def backspace_def Let_def)
    show "solutions (onKeyDown L st key) = solutions st"
      using False by (simp add: onKeyDown_def backspace_def Let_def)
    show "solvedIndices (onKeyDown L st key) = solvedIndices st"
      using False by (simp add: onKeyDown_def backspace_def Let_def)
    show "gameStatus (onKeyDown L st key) = gameStatus st"
      using False by (simp add: onKeyDown_def backspace_def Let_def)
    show "guesses (onKeyDown L st key) = guesses st"
      using False by (simp add: onKeyDown_def backspace_def Let_def)
  qed
  then show ?thesis using assms by simp
qed

lemma handleHint_fields_case:
  "case handleHint L u st of
     Inl e \<Rightarrow> True
   | Inr st' \<Rightarrow> level st' = level st \<and> solutions st' = solutions st \<and>
               solvedIndices st' = solvedIndices st \<and> gameStatus st' = gameStatus st \<and>
               guesses st' = guesses st \<and> validGuessesSet st' = validGuessesSet st"
  by (simp add: handleHint_def Let_def split: option.splits)

lemma handleHint_fields:
  assumes "handleHint L u st = Inr st'"
  shows "level st' = level st" and "solutions st' = solutions st"
    and "solvedIndices st' = solvedIndices st" and "gameStatus st' = gameStatus st"
    and "guesses st' = guesses st" and "validGuessesSet st' = validGuessesSet st"
  using handleHint_fields_case [where L = L and u = u and st = st] assms by simp_all

lemma select_loop_sound:
  assumes "select_loop random vw numWords acc k = Some sols"
  shows "distinct acc \<longrightarrow> length acc \<le> numWords \<longrightarrow>
         length sols = numWords \<and> distinct sols \<and> set sols \<subseteq> set acc \<union> range (js_nth vw)"
proof (rule select_loop.raw_induct
    [where P = "\<lambda>random vw numWords acc k sols. distinct acc \<longrightarrow> length acc \<le> numWords \<longrightarrow>
         length sols = numWords \<and> distinct sols \<and> set sols \<subseteq> set acc \<union> range (js_nth vw)",
     OF _ assms])
  fix f :: "(nat \<Rightarrow> unit_interval) \<Rightarrow> string list \<Rightarrow> nat \<Rightarrow> string option list \<Rightarrow> nat
              \<Rightarrow> string option list option"
    and random vw numWords acc k sols
  assume IH: "\<And>random vw numWords acc k sols. f random vw numWords acc k = Some sols \<Longrightarrow>
         distinct acc \<longrightarrow> length acc \<le> numWords \<longrightarrow>
         length sols = numWords \<and> distinct sols \<and> set sols \<subseteq> set acc \<union> range (js_nth vw)"
    and eq: "(if length acc < numWords
              then let randomWord = js_nth vw (random_index (random k) (length vw))
                   in if randomWord \<notin> set acc
                      then f random vw numWords (acc @ [randomWord]) (Suc k)
                      else f random vw numWords acc (Suc k)
              else Some acc) = Some sols"
  show "distinct acc \<longrightarrow> length acc \<le> numWords \<longrightarrow>
         length sols = numWords \<and> distinct sols \<and> set sols \<subseteq> set acc \<union> range (js_nth vw)"
  proof (cases "length acc < numWords")
    case False
    then show ?thesis using eq by auto
  next
    case True
    define w where "w = js_nth vw (random_index (random k) (length vw))"
    show ?thesis
    proof (cases "w \<in> set acc")
      case True
      then have "f random vw numWords acc (Suc k) = Some sols"
        using eq \<open>length acc < numWords\<close> by (simp add: w_def Let_def)
      from IH [OF this] show ?thesis by simp
    next
      case False
      then have "f random vw numWords (acc @ [w]) (Suc k) = Some sols"
        using eq \<open>length acc < numWords\<close> by (simp add: w_def Let_def)
      from IH [OF this] show ?thesis
        using False \<open>length acc < numWords\<close> by (auto simp: w_def)
    qed
  qed
qed

lemma initGame_invariant:
  assumes "initGame L WORDS random st = Some st'"
  shows "state_invariant st'"
proof -
  obtain sols where sel: "selectSolutions L WORDS random (level st + 1) = Some sols"
    and st': "st' = st\<lparr>solutions := sols,
                      solvedIndices := replicate (level st + 1) (Some False),
                      guesses := [],
                      currentGuess := replicate L (Some []),
                      activeTileIndex := 0,
                      gameStatus := Playing,
                      shakeRow := False,
                      hintCost := 5,
                      revealedHints := [],
                      hintedSolutionIndex := None,
                      toast := None\<rparr>"
    using assms by (auto simp: initGame_def Let_def split: option.splits)
  have "length sols = level st + 1 \<and> distinct sols"
    using select_loop_sound [OF sel [unfolded selectSolutions_def Let_def]] by simp
  then show ?thesis
    unfolding st' by (simp add: state_invariant_def all_solved_def)
qed

lemma score_update_invariant: "state_invariant (st\<lparr>score := n\<rparr>) = state_invariant st"
  by (simp add: state_invariant_def all_solved_def)

lemma apply_event_invariant:
  assumes "state_invariant st" and "apply_event L WORDS st ev = Some st'"
  shows "state_invariant st'"
proof (cases ev)
  case (KeyDown key)
  then show ?thesis using assms onKeyDown_invariant [OF assms(1)] by auto
next
  case (TileClick i)
  then show ?thesis using assms
    by (auto simp: state_invariant_def all_solved_def split: if_splits)
next
  case (HintClick u)
  then obtain e where "handleHint L u st = Inr st'"
    using assms(2) by (auto split: sum.splits)
  from handleHint_fields(1-5) [OF this] show ?thesis
    using assms(1) state_invariant_cong by blast
next
  case (ProximaFase random)
  then show ?thesis using assms(2) initGame_invariant by (auto split: if_splits)
next
  case (TentarNovamente random)
  then show ?thesis using assms(2) initGame_invariant by (auto split: if_splits)
next
  case (ReiniciarDoZero random)
  then show ?thesis using assms initGame_invariant
    by (auto simp: score_update_invariant split: if_splits)
next
  case (DictionaryLoaded ws)
  then show ?thesis using assms
    by (auto simp: state_invariant_def all_solved_def)
next
  case ToastTimeout
  then show ?thesis using assms
    by (auto simp: state_invariant_def all_solved_def)
next
  case ShakeTimeout
  then show ?thesis using assms
    by (auto simp: state_invariant_def all_solved_def)
qed

lemma reachable_invariant:
  "reachable L WORDS VALID_GUESSES st \<Longrightarrow> state_invariant st"
proof (induction rule: reachable.induct)
  case (mounted random st)
  then show ?case
    using initGame_invariant by (auto simp: mount_def score_update_invariant)
next
  case (event st ev st')
  then show ?case using apply_event_invariant by blast
qed

text \<open>
  Claim C3. After every accepted submission the new status is Won if every entry of the
  solved mask is true, else Lost if the number of guesses has reached \<open>maxChallenges\<close>, which
  is \<open>6 + level\<close>, else Playing. Consequently, in every reachable state the status is Won
  exactly when every entry of the solved mask is true, and it is Lost only if not every
  entry is true and the number of guesses has reached \<open>maxChallenges\<close>.
\<close>

theorem status_after_submission_and_in_reachable_states:
  "(accepted L st \<and> length (solutions st) \<le> length (solvedIndices st) \<longrightarrow>
      gameStatus (onKeyDown L st ''ENTER'') =
        (if all_solved (onKeyDown L st ''ENTER'') then Won
         else if 6 + level (onKeyDown L st ''ENTER'') \<le> length (guesses (onKeyDown L st ''ENTER''))
         then Lost else Playing)) \<and>
   (reachable L WORDS VALID_GUESSES s \<longrightarrow>
      (gameStatus s = Won) = all_solved s \<and>
      (gameStatus s = Lost \<longrightarrow> \<not> all_solved s \<and> 6 + level s \<le> length (guesses s)))"
proof (intro conjI impI)
  assume a: "accepted L st \<and> length (solutions st) \<le> length (solvedIndices st)"
  then have e: "onKeyDown L st ''ENTER'' = enter L st"
    by (simp add: onKeyDown_ENTER accepted_def)
  show "gameStatus (onKeyDown L st ''ENTER'') =
        (if all_solved (onKeyDown L st ''ENTER'') then Won
         else if 6 + level (onKeyDown L st ''ENTER'') \<le> length (guesses (onKeyDown L st ''ENTER''))
         then Lost else Playing)"
    unfolding e using a by (intro status_after_enter(1)) auto
next
  assume "reachable L WORDS VALID_GUESSES s"
  then have inv: "state_invariant s" by (rule reachable_invariant)
  then show "(gameStatus s = Won) = all_solved s"
    by (simp add: state_invariant_def)
  assume "gameStatus s = Lost"
  then show "\<not> all_solved s" using inv by (auto simp: state_invariant_def)
  show "6 + level s \<le> length (guesses s)"
    using inv \<open>gameStatus s = Lost\<close> by (auto simp: state_invariant_def)
qed

section \<open>The sample session is a run of the component\<close>

lemma random_index_unit_frac: "k < n \<Longrightarrow> random_index (unit_frac k n) n = k"
  by transfer simp

lemma random_index_less: "0 < n \<Longrightarrow> random_index u n < n"
proof (transfer, goal_cases)
  case (1 n u)
  then have "u * real n < real n" by simp
  then have "\<lfloor>u * real n\<rfloor> < int n" by (simp add: floor_less_iff)
  moreover have "0 \<le> \<lfloor>u * real n\<rfloor>" using 1 by simp
  ultimately show ?case by linarith
qed

lemma reachable_run_events:
  "reachable L WORDS VG st \<Longrightarrow> run_events L WORDS st evs = Some st'
   \<Longrightarrow> reachable L WORDS VG st'"
proof (induction evs arbitrary: st)
  case Nil
  then show ?case by simp
next
  case (Cons ev evs)
  then obtain st1 where a: "apply_event L WORDS st ev = Some st1"
    and r: "run_events L WORDS st1 evs = Some st'"
    by (auto split: option.splits)
  have "reachable L WORDS VG st1"
    using Cons.prems(1) a by (rule reachable.event)
  then show ?case using r by (rule Cons.IH)
qed

lemma example_draws:
  "random_index (example_random 0) (Suc (Suc 0)) = 0"
  "random_index (example_random (Suc 0)) (Suc (Suc 0)) = Suc 0"
  using random_index_unit_frac [of 0 2] random_index_unit_frac [of 1 2]
  by (simp_all add: example_random_def numeral_2_eq_2)

lemma example_select_1:
  "select_loop example_random [''TERMO'', ''MUNDO''] (Suc 0) [] 0 = Some [Some ''TERMO'']"
  apply (subst select_loop.simps)
  apply (simp add: example_draws js_nth_def)
  apply (subst select_loop.simps)
  apply simp
  done

lemma example_select_2:
  "select_loop example_random [''TERMO'', ''MUNDO''] (Suc (Suc 0)) [] 0
     = Some [Some ''TERMO'', Some ''MUNDO'']"
  apply (subst select_loop.simps)
  apply (simp add: example_draws js_nth_def)
  apply (subst select_loop.simps)
  apply (simp add: example_draws js_nth_def)
  apply (subst select_loop.simps)
  apply simp
  done

lemma example_mount:
  "mount 5 example_WORDS example_VALID_GUESSES example_random = Some example_mounted"
  by (auto simp: mount_def initGame_def initialState_def selectSolutions_def eligible_def
      example_WORDS_def example_VALID_GUESSES_def example_select_1 example_mounted_def)

lemma letter_key:
  "gameStatus st = Playing \<Longrightarrow> c \<in> set ''ABCDEFGHIJKLMNOPQRSTUVWXYZ'' \<Longrightarrow>
   onKeyDown 5 st [c] =
     (if activeTileIndex st < 4
      then st\<lparr>currentGuess := js_set (currentGuess st) (activeTileIndex st) (Some [c]),
              activeTileIndex := activeTileIndex st + 1\<rparr>
      else st\<lparr>currentGuess := js_set (currentGuess st) (activeTileIndex st) (Some [c])\<rparr>)"
  by (auto simp: onKeyDown_def is_letter_key_def Let_def)

lemma replicate_5: "replicate 5 x = [x, x, x, x, x]"
  by (simp add: eval_nat_numeral)

lemma run_events_append:
  "run_events L WORDS st (evs @ evs') =
     (case run_events L WORDS st evs of
        None \<Rightarrow> None
      | Some st' \<Rightarrow> run_events L WORDS st' evs')"
  by (induction evs arbitrary: st) (auto split: option.splits)

lemma example_typed_1:
  "run_events 5 example_WORDS example_mounted (map (\<lambda>c. KeyDown [c]) ''TERMO'')
     = Some (example_mounted\<lparr>currentGuess := slots ''TERMO'', activeTileIndex := 4\<rparr>)"
  by (simp add: letter_key example_mounted_def js_set_def slots_def replicate_5)

lemma example_won:
  "run_events 5 example_WORDS example_mounted (type_word ''TERMO'')
     = Some (example_mounted\<lparr>guesses := [''TERMO''], score := 100, solvedIndices := [Some True],
                             gameStatus := Won, toast := Some (Pts_Fase_Completa 100)\<rparr>)"
proof -
  have a: "accepted 5 (example_mounted\<lparr>currentGuess := slots ''TERMO'', activeTileIndex := 4\<rparr>)"
    by (auto simp: accepted_def example_mounted_def slots_def js_join_def)
  have "enter 5 (example_mounted\<lparr>currentGuess := slots ''TERMO'', activeTileIndex := 4\<rparr>)
      = example_mounted\<lparr>guesses := [''TERMO''], score := 100, solvedIndices := [Some True],
                         gameStatus := Won, toast := Some (Pts_Fase_Completa 100)\<rparr>"
    by (simp add: enter_def example_mounted_def slots_def js_join_def Let_def js_forEach_def
        js_spread_bool_def js_get_def js_set_def truthy_def every_Boolean_def nextGuess_def)
  then show ?thesis
    using example_typed_1
    by (simp add: type_word_def run_events_append onKeyDown_ENTER example_mounted_def)
qed

lemma example_next_level:
  "apply_event 5 example_WORDS
     (example_mounted\<lparr>guesses := [''TERMO''], score := 100, solvedIndices := [Some True],
                      gameStatus := Won, toast := Some (Pts_Fase_Completa 100)\<rparr>)
     (ProximaFase example_random) = Some example_level1"
  by (simp add: initGame_def selectSolutions_def eligible_def example_WORDS_def
      example_select_2 example_mounted_def example_level1_def)

lemma example_typed_2:
  "run_events 5 example_WORDS example_level1 (map (\<lambda>c. KeyDown [c]) ''TERMO'')
     = Some (example_level1\<lparr>currentGuess := slots ''TERMO'', activeTileIndex := 4\<rparr>)"
  by (simp add: letter_key example_level1_def js_set_def slots_def replicate_5)

lemma example_solved_first:
  "run_events 5 example_WORDS example_level1 (type_word ''TERMO'') = Some example_state"
proof -
  have "enter 5 (example_level1\<lparr>currentGuess := slots ''TERMO'', activeTileIndex := 4\<rparr>)
      = example_state"
    by (simp add: enter_def example_level1_def example_state_def slots_def js_join_def Let_def
        js_forEach_def js_spread_bool_def js_get_def js_set_def truthy_def every_Boolean_def
        nextGuess_def)
  then show ?thesis
    using example_typed_2
    by (simp add: type_word_def run_events_append onKeyDown_ENTER example_level1_def)
qed

lemma example_state_reachable:
  "reachable 5 example_WORDS example_VALID_GUESSES example_state"
proof -
  have "run_events 5 example_WORDS example_mounted example_events = Some example_state"
    by (simp add: example_events_def run_events_append example_won example_next_level
        example_solved_first del: apply_event.simps)
  with reachable.mounted [OF example_mount] show ?thesis
    by (rule reachable_run_events)
qed

theorem status_after_submission_and_in_reachable_states_witness:
  "accepted 5 (example_state\<lparr>currentGuess := slots ''MUNDO''\<rparr>) \<and>
   gameStatus (onKeyDown 5 (example_state\<lparr>currentGuess := slots ''MUNDO''\<rparr>) ''ENTER'') = Won \<and>
   reachable 5 example_WORDS example_VALID_GUESSES example_state \<and>
   gameStatus example_state = Playing \<and> \<not> all_solved example_state"
proof -
  let ?s = "example_state\<lparr>currentGuess := slots ''MUNDO''\<rparr>"
  have a: "accepted 5 ?s" by simp
  have l: "length (solutions ?s) \<le> length (solvedIndices ?s)"
    by (simp add: example_state_def)
  have p: "gameStatus ?s = Playing" by (simp add: example_state_def)
  have m: "solvedIndices (onKeyDown 5 ?s ''ENTER'') = [Some True, Some True]"
    unfolding onKeyDown_ENTER [OF p] enter_accepted_hints(1) [OF a refl refl]
    by (simp add: example_state_def slots_def js_join_def js_forEach_def js_spread_bool_def
        js_get_def js_set_def truthy_def)
  have "all_solved (onKeyDown 5 ?s ''ENTER'')"
    by (simp add: all_solved_def m)
  moreover have "gameStatus example_state = Playing"
    by (simp add: example_state_def)
  ultimately show ?thesis
    using status_after_submission_and_in_reachable_states
            [of 5 ?s example_WORDS example_VALID_GUESSES example_state]
          a l example_state_reachable
    by simp
qed

section \<open>Hint requests\<close>

lemma js_findIndex_cases:
  obtains (none) "js_findIndex p xs = - 1" and "\<forall>i<length xs. \<not> p (xs ! i) i"
  | (found) c where "js_findIndex p xs = int c" and "c < length xs" and "p (xs ! c) c"
      and "\<forall>i<c. \<not> p (xs ! i) i"
proof (cases "List.find (\<lambda>j. p (xs ! j) j) [0..<length xs]")
  case None
  then have "js_findIndex p xs = - 1" by (simp add: js_findIndex_find)
  moreover have "\<forall>i<length xs. \<not> p (xs ! i) i"
    using None by (auto simp: find_None_iff)
  ultimately show thesis by (rule none)
next
  case (Some c)
  then have "js_findIndex p xs = int c" by (simp add: js_findIndex_find)
  moreover have "c < length xs" "p (xs ! c) c" "\<forall>i<c. \<not> p (xs ! i) i"
    using Some by (auto simp: find_Some_iff)
  ultimately show thesis by (rule found)
qed

lemma first_unsolved_not_truthy:
  assumes "js_findIndex (\<lambda>solved index. \<not> truthy solved) xs = int c"
  shows "\<not> truthy (js_get xs c)"
proof (cases rule: js_findIndex_cases [of "\<lambda>solved index. \<not> truthy solved" xs])
  case none
  then show ?thesis using assms by simp
next
  case (found c')
  then show ?thesis using assms by (simp add: js_get_def)
qed

text \<open>The handler while playing, with enough points and \<open>c\<close> the first unsolved board.\<close>

lemma handleHint_playing:
  assumes "gameStatus st = Playing" and "\<not> score st < hintCost st"
    and "js_findIndex (\<lambda>solved index. \<not> truthy solved) (solvedIndices st) = int c"
  shows "handleHint L u st =
     (let st1 = (if hintedSolutionIndex st = Some c then st
                 else st\<lparr>hintedSolutionIndex := Some c, revealedHints := []\<rparr>)
      in if availableIndices st = []
         then Inr (st1\<lparr>toast := Some Libere_espaco, shakeRow := True\<rparr>)
         else (case js_get (solutions st) c of
                 None \<Rightarrow> Inl TypeError
               | Some target \<Rightarrow>
                   (let randomIndex =
                          availableIndices st ! random_index u (length (availableIndices st));
                        correctLetter = map_option (\<lambda>c. [c]) (js_nth target randomIndex)
                    in Inr (st1\<lparr>revealedHints :=
                                   obj_put randomIndex correctLetter (revealedHints st),
                                 currentGuess :=
                                   js_set (currentGuess st) randomIndex correctLetter,
                                 score := score st - hintCost st,
                                 hintCost := hintCost st + 5,
                                 activeTileIndex :=
                                   (if randomIndex = activeTileIndex st
                                    then next_free L (currentGuess st) (activeTileIndex st)
                                    else activeTileIndex st)\<rparr>))))"
  using assms first_unsolved_not_truthy [OF assms(3)]
  by (cases "hintedSolutionIndex st") (auto simp: handleHint_def Let_def split: option.splits)

lemma handleHint_no_unsolved:
  assumes "gameStatus st = Playing" and "\<not> score st < hintCost st"
    and "js_findIndex (\<lambda>solved index. \<not> truthy solved) (solvedIndices st) = - 1"
  shows "handleHint L u st = Inr st"
  using assms by (simp add: handleHint_def)

lemma handleHint_insufficient:
  assumes "gameStatus st = Playing" and "score st < hintCost st"
  shows "handleHint L u st = Inr (st\<lparr>toast := Some (Pontos_insuficientes (hintCost st))\<rparr>)"
  using assms by (simp add: handleHint_def)

lemma next_free_empty: "js_get cg a = Some [] \<Longrightarrow> next_free L cg a = a"
  by (subst next_free.simps) simp

lemma random_slot_available:
  assumes "availableIndices st \<noteq> []"
  shows "availableIndices st ! random_index u (length (availableIndices st))
           \<in> set (availableIndices st)"
  using assms by (simp add: random_index_less)

lemma available_slot_empty:
  "i \<in> set (availableIndices st) \<Longrightarrow> js_get (currentGuess st) i = Some [] \<and> i < length (currentGuess st)"
  by (simp add: availableIndices_def)

lemma handleHint_cursor_case:
  "case handleHint L u st of
     Inl e \<Rightarrow> True
   | Inr st' \<Rightarrow> activeTileIndex st' = activeTileIndex st"
proof (cases "gameStatus st = Playing")
  case False
  then show ?thesis by (simp add: handleHint_def)
next
  case playing: True
  show ?thesis
  proof (cases "score st < hintCost st")
    case True
    then show ?thesis using playing by (simp add: handleHint_insufficient)
  next
    case False
    show ?thesis
    proof (cases rule: js_findIndex_cases
        [of "\<lambda>solved index. \<not> truthy solved" "solvedIndices st"])
      case none
      then show ?thesis using playing False by (simp add: handleHint_no_unsolved)
    next
      case (found c)
      note h = handleHint_playing [OF playing False found(1), of L u]
      show ?thesis
      proof (cases "availableIndices st = []")
        case True
        then show ?thesis unfolding h by (simp add: Let_def)
      next
        case nonempty: False
        define r where "r = availableIndices st ! random_index u (length (availableIndices st))"
        have "js_get (currentGuess st) r = Some []"
          using random_slot_available [OF nonempty] available_slot_empty
          unfolding r_def by blast
        then have nf: "r = activeTileIndex st \<Longrightarrow>
                   next_free L (currentGuess st) (activeTileIndex st) = activeTileIndex st"
          by (simp add: next_free_empty)
        show ?thesis
        proof (cases "js_get (solutions st) c")
          case None
          then show ?thesis unfolding h using nonempty by (simp add: Let_def)
        next
          case (Some target)
          show ?thesis
            unfolding h Let_def r_def [symmetric] using nonempty Some nf by simp
        qed
      qed
    qed
  qed
qed

lemma handleHint_cursor_unchanged:
  assumes "handleHint L u st = Inr st'"
  shows "activeTileIndex st' = activeTileIndex st"
  using handleHint_cursor_case [where L = L and u = u and st = st] assms by simp

text \<open>
  Claim C7. A hint request while playing, the first unsolved board \<open>c\<close> having a solution, is
  rejected exactly when the score is below the hint cost or no slot is available: then the
  score, the hint cost and the buffer stay, and a toast says why. Every other request
  succeeds: it deducts the hint cost from the score, raises the hint cost by 5 and writes
  the letter of an available slot into the buffer.
\<close>

theorem hint_economy:
  assumes "gameStatus st = Playing"
    and "js_findIndex (\<lambda>solved index. \<not> truthy solved) (solvedIndices st) = int c"
    and "js_get (solutions st) c = Some target"
  shows "\<exists>st'. handleHint L u st = Inr st' \<and>
           (if score st < hintCost st
            then toast st' = Some (Pontos_insuficientes (hintCost st)) \<and>
                 score st' = score st \<and> hintCost st' = hintCost st \<and>
                 currentGuess st' = currentGuess st
            else if availableIndices st = []
            then toast st' = Some Libere_espaco \<and> shakeRow st' \<and>
                 score st' = score st \<and> hintCost st' = hintCost st \<and>
                 currentGuess st' = currentGuess st
            else score st' = score st - hintCost st \<and> hintCost st' = hintCost st + 5 \<and>
                 (\<exists>i\<in>set (availableIndices st).
                    currentGuess st' =
                      js_set (currentGuess st) i (map_option (\<lambda>c. [c]) (js_nth target i))))"
proof (cases "score st < hintCost st")
  case True
  then show ?thesis
    using assms(1) by (simp add: handleHint_insufficient)
next
  case False
  note h = handleHint_playing [OF assms(1) False assms(2), of L u]
  show ?thesis
  proof (cases "availableIndices st = []")
    case True
    then show ?thesis using False h by (simp add: Let_def)
  next
    case nonempty: False
    define r where "r = availableIndices st ! random_index u (length (availableIndices st))"
    have mem: "r \<in> set (availableIndices st)"
      unfolding r_def using nonempty by (rule random_slot_available)
    obtain st' where st': "handleHint L u st = Inr st'"
      and f: "score st' = score st - hintCost st" "hintCost st' = hintCost st + 5"
        "currentGuess st' = js_set (currentGuess st) r (map_option (\<lambda>c. [c]) (js_nth target r))"
      unfolding h Let_def r_def [symmetric] using nonempty assms(3) by simp
    show ?thesis
      using st' f mem False nonempty by auto
  qed
qed

lemma example_first_unsolved:
  "js_findIndex (\<lambda>solved index. \<not> truthy solved) (solvedIndices example_state) = int 1"
  by (simp add: example_state_def js_findIndex_def truthy_def)

lemma example_available: "availableIndices example_state = [0, 1, 2, 3, 4]"
  by (simp add: availableIndices_def example_state_def js_get_def falsy_string_def obj_get_def
      replicate_5 upt_conv_Cons)

theorem hint_economy_witness:
  "gameStatus example_state = Playing \<and> score example_state = 200 \<and>
   hintCost example_state = 5 \<and>
   (\<exists>st'. handleHint 5 (unit_frac 0 5) example_state = Inr st' \<and>
          score st' = 195 \<and> hintCost st' = 10)"
proof -
  have a: "gameStatus example_state = Playing" by (simp add: example_state_def)
  have b: "js_get (solutions example_state) 1 = Some ''MUNDO''"
    by (simp add: example_state_def js_get_def)
  have c: "score example_state = 200" "hintCost example_state = 5"
    by (simp_all add: example_state_def)
  show ?thesis
    using hint_economy [OF a example_first_unsolved b, of 5 "unit_frac 0 5"] a c
    by (auto simp: example_available)
qed

text \<open>
  Claim C8 says that a successful hint whose revealed slot is the slot of the cursor
  advances the cursor to the next slot that is empty after the reveal. The handler does
  not: on the sample session the buffer is empty and the cursor is on slot 0, the hint
  reveals slot 0, slot 1 is empty after the reveal, and the cursor is still on slot 0. By
  \<open>handleHint_cursor_unchanged\<close> no hint moves the cursor.
\<close>

theorem hint_on_cursor_slot_keeps_cursor:
  "reachable 5 example_WORDS example_VALID_GUESSES example_state \<and>
   activeTileIndex example_state = 0 \<and>
   handleHint 5 (unit_frac 0 5) example_state =
     Inr (example_state\<lparr>hintedSolutionIndex := Some 1,
                         revealedHints := [(0, Some ''M'')],
                         currentGuess := [Some ''M'', Some [], Some [], Some [], Some []],
                         score := 195, hintCost := 10, activeTileIndex := 0\<rparr>)"
proof -
  have a: "gameStatus example_state = Playing" "\<not> score example_state < hintCost example_state"
    by (simp_all add: example_state_def)
  have len: "length [0, 1, 2, 3, 4 :: nat] = 5" by simp
  have r: "random_index (unit_frac 0 5) (length [0, 1, 2, 3, 4 :: nat]) = 0"
    unfolding len by (rule random_index_unit_frac) simp
  have n: "next_free 5 (currentGuess example_state) 0 = 0"
    by (rule next_free_empty) (simp add: example_state_def js_get_def)
  have "handleHint 5 (unit_frac 0 5) example_state =
     Inr (example_state\<lparr>hintedSolutionIndex := Some 1,
                         revealedHints := [(0, Some ''M'')],
                         currentGuess := [Some ''M'', Some [], Some [], Some [], Some []],
                         score := 195, hintCost := 10, activeTileIndex := 0\<rparr>)"
    unfolding handleHint_playing [OF a example_first_unsolved] example_available Let_def r
    using n
    by (simp add: example_state_def js_get_def js_nth_def js_set_def replicate_5)
  then show ?thesis
    using example_state_reachable by (simp add: example_state_def)
qed

section \<open>The selection of the solutions\<close>

text \<open>What the loop returns was pushed from a draw made at or after its starting point.\<close>

lemma select_loop_draws:
  assumes "select_loop random vw numWords acc n = Some sols"
  shows "set sols \<subseteq> set acc \<union> (\<lambda>k. js_nth vw (random_index (random k) (length vw))) ` {n..}"
proof (rule select_loop.raw_induct
    [where P = "\<lambda>random vw numWords acc n sols.
         set sols \<subseteq> set acc \<union> (\<lambda>k. js_nth vw (random_index (random k) (length vw))) ` {n..}",
     OF _ assms])
  fix f :: "(nat \<Rightarrow> unit_interval) \<Rightarrow> string list \<Rightarrow> nat \<Rightarrow> string option list \<Rightarrow> nat
              \<Rightarrow> string option list option"
    and random vw numWords acc n sols
  assume IH: "\<And>random vw numWords acc n sols. f random vw numWords acc n = Some sols \<Longrightarrow>
         set sols \<subseteq> set acc \<union> (\<lambda>k. js_nth vw (random_index (random k) (length vw))) ` {n..}"
    and eq: "(if length acc < numWords
              then let randomWord = js_nth vw (random_index (random n) (length vw))
                   in if randomWord \<notin> set acc
                      then f random vw numWords (acc @ [randomWord]) (Suc n)
                      else f random vw numWords acc (Suc n)
              else Some acc) = Some sols"
  let ?draw = "\<lambda>k. js_nth vw (random_index (random k) (length vw))"
  have mono: "?draw ` {Suc n..} \<subseteq> ?draw ` {n..}" by auto
  have here: "?draw n \<in> ?draw ` {n..}" by auto
  show "set sols \<subseteq> set acc \<union> ?draw ` {n..}"
  proof (cases "length acc < numWords")
    case False
    then show ?thesis using eq by auto
  next
    case True
    show ?thesis
    proof (cases "?draw n \<in> set acc")
      case True
      then have "f random vw numWords acc (Suc n) = Some sols"
        using eq \<open>length acc < numWords\<close> by (simp add: Let_def)
      from IH [OF this] show ?thesis using mono by blast
    next
      case False
      then have "f random vw numWords (acc @ [?draw n]) (Suc n) = Some sols"
        using eq \<open>length acc < numWords\<close> by (simp add: Let_def)
      from IH [OF this] have "set sols \<subseteq> set (acc @ [?draw n]) \<union> ?draw ` {Suc n..}" .
      then show ?thesis using mono here by auto
    qed
  qed
qed

text \<open>
  The loop returns once the draws made so far hold \<open>numWords\<close> distinct values: \<open>acc\<close> lists
  the distinct values of the first \<open>n\<close> draws, and the first \<open>m\<close> draws hold enough of them.
\<close>

lemma select_loop_returns:
  fixes random :: "nat \<Rightarrow> unit_interval"
  defines "draw \<equiv> \<lambda>vw k. js_nth vw (random_index (random k) (length vw))"
  assumes "numWords \<le> card (draw vw ` {..<m})"
  shows "set acc = draw vw ` {..<n} \<Longrightarrow> distinct acc \<Longrightarrow> length acc \<le> numWords
         \<Longrightarrow> \<exists>sols. select_loop random vw numWords acc n = Some sols"
proof (induction "m - n" arbitrary: n acc rule: less_induct)
  case less
  show ?case
  proof (cases "length acc < numWords")
    case False
    then show ?thesis by (subst select_loop.simps) simp
  next
    case True
    have "n < m"
    proof (rule ccontr)
      assume "\<not> n < m"
      then have "draw vw ` {..<m} \<subseteq> draw vw ` {..<n}" by auto
      then have "card (draw vw ` {..<m}) \<le> card (draw vw ` {..<n})"
        by (intro card_mono) auto
      also have "\<dots> = length acc"
        using less.prems(1,2) distinct_card by metis
      finally show False using True assms(2) by simp
    qed
    have lt: "{..<Suc n} = insert n {..<n}" by auto
    show ?thesis
    proof (cases "draw vw n \<in> set acc")
      case in_acc: True
      have "\<exists>sols. select_loop random vw numWords acc (Suc n) = Some sols"
      proof (rule less.hyps)
        show "m - Suc n < m - n" using \<open>n < m\<close> by simp
        show "set acc = draw vw ` {..<Suc n}"
          using less.prems(1) in_acc unfolding lt by auto
        show "distinct acc" by (rule less.prems(2))
        show "length acc \<le> numWords" by (rule less.prems(3))
      qed
      then show ?thesis
        using True in_acc by (subst select_loop.simps) (simp add: draw_def Let_def)
    next
      case not_in: False
      have "\<exists>sols. select_loop random vw numWords (acc @ [draw vw n]) (Suc n) = Some sols"
      proof (rule less.hyps)
        show "m - Suc n < m - n" using \<open>n < m\<close> by simp
        show "set (acc @ [draw vw n]) = draw vw ` {..<Suc n}"
          using less.prems(1) unfolding lt by auto
        show "distinct (acc @ [draw vw n])" using less.prems(2) not_in by simp
        show "length (acc @ [draw vw n]) \<le> numWords" using True by simp
      qed
      then show ?thesis
        using True not_in by (subst select_loop.simps) (simp add: draw_def Let_def)
    qed
  qed
qed

lemma select_loop_stuck:
  assumes "select_loop random vw numWords acc n = Some sols"
  shows "\<not> (length acc < numWords \<and>
            (\<forall>k\<ge>n. js_nth vw (random_index (random k) (length vw)) \<in> set acc))"
proof (rule select_loop.raw_induct
    [where P = "\<lambda>random vw numWords acc n sols.
         \<not> (length acc < numWords \<and>
            (\<forall>k\<ge>n. js_nth vw (random_index (random k) (length vw)) \<in> set acc))",
     OF _ assms])
  fix f :: "(nat \<Rightarrow> unit_interval) \<Rightarrow> string list \<Rightarrow> nat \<Rightarrow> string option list \<Rightarrow> nat
              \<Rightarrow> string option list option"
    and random vw numWords acc n sols
  assume IH: "\<And>random vw numWords acc n sols. f random vw numWords acc n = Some sols \<Longrightarrow>
         \<not> (length acc < numWords \<and>
            (\<forall>k\<ge>n. js_nth vw (random_index (random k) (length vw)) \<in> set acc))"
    and eq: "(if length acc < numWords
              then let randomWord = js_nth vw (random_index (random n) (length vw))
                   in if randomWord \<notin> set acc
                      then f random vw numWords (acc @ [randomWord]) (Suc n)
                      else f random vw numWords acc (Suc n)
              else Some acc) = Some sols"
  show "\<not> (length acc < numWords \<and>
            (\<forall>k\<ge>n. js_nth vw (random_index (random k) (length vw)) \<in> set acc))"
  proof
    assume stuck: "length acc < numWords \<and>
            (\<forall>k\<ge>n. js_nth vw (random_index (random k) (length vw)) \<in> set acc)"
    then have "f random vw numWords acc (Suc n) = Some sols"
      using eq by (simp add: Let_def)
    from IH [OF this] show False using stuck by auto
  qed
qed

lemma select_loop_never_returns:
  assumes "length acc < numWords"
    and "\<forall>k\<ge>n. js_nth vw (random_index (random k) (length vw)) \<in> set acc"
  shows "select_loop random vw numWords acc n = None"
proof (cases "select_loop random vw numWords acc n")
  case None
  then show ?thesis .
next
  case (Some sols)
  from select_loop_stuck [OF this] show ?thesis using assms by blast
qed

lemma draw_in_pool:
  assumes "vw \<noteq> []"
  shows "js_nth vw (random_index u (length vw)) = Some (vw ! random_index u (length vw))"
    and "vw ! random_index u (length vw) \<in> set vw"
  using assms random_index_less [of "length vw" u] by (simp_all add: js_nth_def)

text \<open>
  With a pool that holds fewer than \<open>numWords\<close> distinct words the loop never returns,
  whatever the random source does: the code has no test for an exhausted pool.
\<close>

lemma select_loop_pool:
  assumes "select_loop random vw numWords acc n = Some sols"
  shows "\<not> (vw \<noteq> [] \<and> card (set vw) < numWords \<and> set acc \<subseteq> Some ` set vw \<and> distinct acc)"
proof (rule select_loop.raw_induct
    [where P = "\<lambda>random vw numWords acc n sols.
         \<not> (vw \<noteq> [] \<and> card (set vw) < numWords \<and> set acc \<subseteq> Some ` set vw \<and> distinct acc)",
     OF _ assms])
  fix f :: "(nat \<Rightarrow> unit_interval) \<Rightarrow> string list \<Rightarrow> nat \<Rightarrow> string option list \<Rightarrow> nat
              \<Rightarrow> string option list option"
    and random vw numWords acc n sols
  assume IH: "\<And>random vw numWords acc n sols. f random vw numWords acc n = Some sols \<Longrightarrow>
         \<not> (vw \<noteq> [] \<and> card (set vw) < numWords \<and> set acc \<subseteq> Some ` set vw \<and> distinct acc)"
    and eq: "(if length acc < numWords
              then let randomWord = js_nth vw (random_index (random n) (length vw))
                   in if randomWord \<notin> set acc
                      then f random vw numWords (acc @ [randomWord]) (Suc n)
                      else f random vw numWords acc (Suc n)
              else Some acc) = Some sols"
  show "\<not> (vw \<noteq> [] \<and> card (set vw) < numWords \<and> set acc \<subseteq> Some ` set vw \<and> distinct acc)"
  proof
    assume inv: "vw \<noteq> [] \<and> card (set vw) < numWords \<and> set acc \<subseteq> Some ` set vw \<and> distinct acc"
    let ?w = "js_nth vw (random_index (random n) (length vw))"
    have "length acc = card (set acc)" using inv by (simp add: distinct_card)
    also have "\<dots> \<le> card (Some ` set vw)" using inv by (intro card_mono) auto
    also have "\<dots> = card (set vw)" by (simp add: card_image)
    finally have short: "length acc < numWords" using inv by simp
    have w: "?w \<in> Some ` set vw" using draw_in_pool [of vw "random n"] inv by simp
    show False
    proof (cases "?w \<in> set acc")
      case True
      then have "f random vw numWords acc (Suc n) = Some sols"
        using eq short by (simp add: Let_def)
      from IH [OF this] show False using inv by simp
    next
      case False
      then have "f random vw numWords (acc @ [?w]) (Suc n) = Some sols"
        using eq short by (simp add: Let_def)
      from IH [OF this] show False using inv w False by simp
    qed
  qed
qed

lemma selectSolutions_pool_exhausted:
  assumes "filter (eligible L) WORDS \<noteq> []"
    and "card (set (filter (eligible L) WORDS)) < numWords"
  shows "selectSolutions L WORDS random numWords = None"
proof (cases "selectSolutions L WORDS random numWords")
  case None
  then show ?thesis .
next
  case (Some sols)
  from select_loop_pool [OF this [unfolded selectSolutions_def Let_def]] show ?thesis
    using assms by simp
qed

text \<open>
  When the pool of eligible words is not empty and the first \<open>m\<close> draws of the random source
  hold \<open>numWords\<close> distinct words, for some \<open>m\<close>, the selection returns, and it returns
  exactly \<open>numWords\<close> pairwise distinct eligible words of the vocabulary.
\<close>

lemma selectSolutions_enough_draws:
  assumes "filter (eligible L) WORDS \<noteq> []"
    and "numWords \<le> card ((\<lambda>k. filter (eligible L) WORDS !
                                  random_index (random k) (length (filter (eligible L) WORDS)))
                            ` {..<m})"
  shows "\<exists>sols. selectSolutions L WORDS random numWords = Some (map Some sols) \<and>
                length sols = numWords \<and> distinct sols \<and> set sols \<subseteq> set WORDS \<and>
                (\<forall>w\<in>set sols. eligible L w)"
proof -
  let ?vw = "filter (eligible L) WORDS"
  let ?pick = "\<lambda>k. ?vw ! random_index (random k) (length ?vw)"
  let ?draw = "\<lambda>k. js_nth ?vw (random_index (random k) (length ?vw))"
  have dr: "?draw k = Some (?pick k)" for k
    using draw_in_pool(1) [OF assms(1)] by simp
  have pick: "?pick k \<in> set ?vw" for k
    using draw_in_pool(2) [OF assms(1)] by simp
  have "?draw ` {..<m} = Some ` (?pick ` {..<m})"
    using dr by (auto simp: image_iff)
  then have "card (?draw ` {..<m}) = card (?pick ` {..<m})"
    by (simp add: card_image)
  then have enough: "numWords \<le> card (?draw ` {..<m})"
    using assms(2) by simp
  obtain res where res: "select_loop random ?vw numWords [] 0 = Some res"
    using select_loop_returns [OF enough, of "[]" 0] by auto
  have len: "length res = numWords" and dist: "distinct res"
    using select_loop_sound [OF res] by simp_all
  have sub: "set res \<subseteq> Some ` set ?vw"
    using select_loop_draws [OF res] dr pick by auto
  define sols where "sols = map the res"
  have "map (Some \<circ> the) res = res"
    by (rule map_idI) (use sub in auto)
  then have r: "res = map Some sols"
    by (simp add: sols_def)
  have "selectSolutions L WORDS random numWords = Some (map Some sols)"
    using res r by (simp add: selectSolutions_def)
  moreover have "length sols = numWords" using len by (simp add: sols_def)
  moreover have "distinct sols" using dist unfolding r by (simp add: distinct_map)
  moreover have "set sols \<subseteq> set ?vw" using sub unfolding r by auto
  ultimately show ?thesis by auto
qed

text \<open>
  On an empty pool every draw is \<^verbatim>\<open>undefined\<close>: the selection of one word returns that
  single undefined entry, and the selection of two or more words never returns.
\<close>

lemma selectSolutions_empty_pool:
  assumes "filter (eligible L) WORDS = []"
  shows "selectSolutions L WORDS random 1 = Some [None]"
    and "2 \<le> numWords \<Longrightarrow> selectSolutions L WORDS random numWords = None"
proof -
  have one: "select_loop random [] (Suc 0) [None] (Suc 0) = Some [None]"
    by (subst select_loop.simps) simp
  show "selectSolutions L WORDS random 1 = Some [None]"
    unfolding selectSolutions_def assms Let_def
    by (subst select_loop.simps) (simp add: js_nth_def one)
  assume n: "2 \<le> numWords"
  have "select_loop random [] numWords [None] (Suc 0) = None"
    by (rule select_loop_never_returns) (use n in \<open>simp_all add: js_nth_def\<close>)
  then show "selectSolutions L WORDS random numWords = None"
    unfolding selectSolutions_def assms Let_def
    using n by (subst select_loop.simps) (simp add: js_nth_def)
qed

text \<open>
  Claim C4, as the code has it. The selection draws random words until it holds \<open>numWords\<close>
  distinct ones, and it has no test for an exhausted pool. When the pool of eligible words
  is not empty and the first \<open>m\<close> draws of the random source hold \<open>numWords\<close> distinct words,
  for some \<open>m\<close>, the selection returns, and it returns exactly \<open>numWords\<close> pairwise distinct
  eligible words of the vocabulary. When \<open>numWords\<close> exceeds the number of distinct eligible
  words of a pool that is not empty, the selection never returns, whatever the random
  source draws; it does not fail. On an empty pool the selection of two or more words never
  returns either, and the selection of one word returns a single undefined entry.
\<close>

theorem selection_returns_or_never_returns:
  "(filter (eligible L) WORDS \<noteq> [] \<and>
    numWords \<le> card ((\<lambda>k. filter (eligible L) WORDS !
                             random_index (random k) (length (filter (eligible L) WORDS)))
                       ` {..<m}) \<longrightarrow>
      (\<exists>sols. selectSolutions L WORDS random numWords = Some (map Some sols) \<and>
              length sols = numWords \<and> distinct sols \<and> set sols \<subseteq> set WORDS \<and>
              (\<forall>w\<in>set sols. eligible L w))) \<and>
   (filter (eligible L) WORDS \<noteq> [] \<and> card (set (filter (eligible L) WORDS)) < numWords \<longrightarrow>
      selectSolutions L WORDS random numWords = None) \<and>
   (filter (eligible L) WORDS = [] \<and> 2 \<le> numWords \<longrightarrow>
      selectSolutions L WORDS random numWords = None) \<and>
   (filter (eligible L) WORDS = [] \<and> numWords = 1 \<longrightarrow>
      selectSolutions L WORDS random numWords = Some [None])"
proof (intro conjI impI)
  assume a: "filter (eligible L) WORDS \<noteq> [] \<and>
    numWords \<le> card ((\<lambda>k. filter (eligible L) WORDS !
                             random_index (random k) (length (filter (eligible L) WORDS)))
                       ` {..<m})"
  show "\<exists>sols. selectSolutions L WORDS random numWords = Some (map Some sols) \<and>
              length sols = numWords \<and> distinct sols \<and> set sols \<subseteq> set WORDS \<and>
              (\<forall>w\<in>set sols. eligible L w)"
    by (rule selectSolutions_enough_draws [OF conjunct1 [OF a] conjunct2 [OF a]])
next
  assume a: "filter (eligible L) WORDS \<noteq> [] \<and> card (set (filter (eligible L) WORDS)) < numWords"
  show "selectSolutions L WORDS random numWords = None"
    by (rule selectSolutions_pool_exhausted [OF conjunct1 [OF a] conjunct2 [OF a]])
next
  assume a: "filter (eligible L) WORDS = [] \<and> 2 \<le> numWords"
  show "selectSolutions L WORDS random numWords = None"
    by (rule selectSolutions_empty_pool(2) [OF conjunct1 [OF a] conjunct2 [OF a]])
next
  assume a: "filter (eligible L) WORDS = [] \<and> numWords = 1"
  show "selectSolutions L WORDS random numWords = Some [None]"
    using selectSolutions_empty_pool(1) [OF conjunct1 [OF a]] a by simp
qed

theorem selection_returns_or_never_returns_witness:
  "filter (eligible 5) example_WORDS \<noteq> [] \<and>
   (\<exists>sols. selectSolutions 5 example_WORDS example_random 2 = Some (map Some sols) \<and>
           length sols = 2 \<and> distinct sols \<and> set sols \<subseteq> set example_WORDS) \<and>
   card (set (filter (eligible 5) example_WORDS)) < 3 \<and>
   selectSolutions 5 example_WORDS example_random 3 = None \<and>
   filter (eligible 4) example_WORDS = [] \<and>
   selectSolutions 4 example_WORDS example_random 2 = None \<and>
   selectSolutions 4 example_WORDS example_random 1 = Some [None]"
proof -
  have f: "filter (eligible 5) example_WORDS = [''TERMO'', ''MUNDO'']"
    by (simp add: eligible_def example_WORDS_def)
  have e: "filter (eligible 4) example_WORDS = []"
    by (simp add: eligible_def example_WORDS_def)
  have two: "{..<2::nat} = {0, Suc 0}" by auto
  have c: "2 \<le> card ((\<lambda>k. filter (eligible 5) example_WORDS !
                               random_index (example_random k)
                                 (length (filter (eligible 5) example_WORDS))) ` {..<2})"
    unfolding f two by (simp add: example_draws)
  have ne: "filter (eligible 5) example_WORDS \<noteq> []" and few: "card (set (filter (eligible 5) example_WORDS)) < 3"
    unfolding f by simp_all
  have r1: "\<exists>sols. selectSolutions 5 example_WORDS example_random 2 = Some (map Some sols) \<and>
           length sols = 2 \<and> distinct sols \<and> set sols \<subseteq> set example_WORDS"
    using selection_returns_or_never_returns [of 5 example_WORDS 2 example_random 2] ne c
    by blast
  have r2: "selectSolutions 5 example_WORDS example_random 3 = None"
    using selection_returns_or_never_returns [of 5 example_WORDS 3 example_random 0] ne few
    by blast
  have r3: "selectSolutions 4 example_WORDS example_random 2 = None"
    using selection_returns_or_never_returns [of 4 example_WORDS 2 example_random 0] e
    by simp
  have r4: "selectSolutions 4 example_WORDS example_random 1 = Some [None]"
    using selection_returns_or_never_returns [of 4 example_WORDS 1 example_random 0] e
    by simp
  show ?thesis
    using ne r1 few r2 e r3 r4 by blast
qed

text \<open>
  The claim as stated fails on the sample pool, which holds two distinct eligible words:
  the selection of three words never returns, where the claim has it fail with
  \<^verbatim>\<open>PoolExhausted\<close>.
\<close>

theorem selection_from_exhausted_pool_never_returns:
  "filter (eligible 5) example_WORDS = [''TERMO'', ''MUNDO''] \<and>
   card (set (filter (eligible 5) example_WORDS)) = 2 \<and>
   selectSolutions 5 example_WORDS example_random 3 = None"
proof -
  have f: "filter (eligible 5) example_WORDS = [''TERMO'', ''MUNDO'']"
    by (simp add: eligible_def example_WORDS_def)
  have "selectSolutions 5 example_WORDS example_random 3 = None"
    by (rule selectSolutions_pool_exhausted) (simp_all add: f)
  then show ?thesis
    using f by simp
qed

section \<open>The keyboard map\<close>

lemma key_step_letter:
  "key_step statuses keyStatuses (i, c) letter =
     (if c = letter then spec_better (keyStatuses letter) (js_get statuses i)
      else keyStatuses letter)"
proof (cases "c = letter")
  case False
  then show ?thesis by (simp add: Let_def)
next
  case True
  show ?thesis
  proof (cases "keyStatuses letter")
    case None
    then show ?thesis
      using True
      by (cases "js_get statuses i"; cases "the (js_get statuses i)")
         (auto simp: Let_def spec_better_def)
  next
    case (Some cur)
    then show ?thesis
      using True
      by (cases cur; cases "js_get statuses i"; cases "the (js_get statuses i)")
         (auto simp: Let_def spec_better_def)
  qed
qed

lemma key_fold_letter:
  "fold (\<lambda>p acc. key_step statuses acc p) ps keyStatuses letter =
     foldl spec_better (keyStatuses letter)
       (map (\<lambda>(i, c). js_get statuses i) (filter (\<lambda>(i, c). c = letter) ps))"
proof (induction ps arbitrary: keyStatuses)
  case Nil
  then show ?case by simp
next
  case (Cons p ps)
  obtain i c where p: "p = (i, c)" by (cases p)
  have "fold (\<lambda>p acc. key_step statuses acc p) (p # ps) keyStatuses letter
      = fold (\<lambda>p acc. key_step statuses acc p) ps (key_step statuses keyStatuses (i, c)) letter"
    by (simp add: p del: key_step.simps)
  also have "\<dots> = foldl spec_better (key_step statuses keyStatuses (i, c) letter)
       (map (\<lambda>(i, c). js_get statuses i) (filter (\<lambda>(i, c). c = letter) ps))"
    by (rule Cons.IH)
  also have "\<dots> = foldl spec_better (keyStatuses letter)
       (map (\<lambda>(i, c). js_get statuses i) (filter (\<lambda>(i, c). c = letter) (p # ps)))"
    unfolding key_step_letter p by simp
  finally show ?case .
qed

lemma key_forEach_letter:
  "js_forEach (key_step statuses) guess keyStatuses letter =
     foldl spec_better (keyStatuses letter) (letter_evidence statuses guess letter)"
  by (simp add: js_forEach_def key_fold_letter letter_evidence_def)

text \<open>A board either is skipped, or has a solution: then the loop over the boards does not throw.\<close>

lemma key_solution_step_letter:
  assumes "truthy (js_get solved solIndex) \<or> sol \<noteq> None"
  shows "\<exists>ks'. key_solution_step L solved guess (Inr ks) (solIndex, sol) = Inr ks' \<and>
           (\<forall>letter. ks' letter =
              foldl spec_better (ks letter) (board_evidence L solved guess letter (solIndex, sol)))"
proof (cases "truthy (js_get solved solIndex)")
  case True
  then show ?thesis
    by (cases sol) (simp_all add: board_evidence_def)
next
  case False
  then obtain s where "sol = Some s" using assms by auto
  then show ?thesis
    using False by (simp add: board_evidence_def key_forEach_letter)
qed

lemma key_boards_fold:
  assumes "\<forall>(solIndex, sol)\<in>set bs. truthy (js_get solved solIndex) \<or> sol \<noteq> None"
  shows "\<exists>ks'. fold (\<lambda>p acc. key_solution_step L solved guess acc p) bs (Inr ks) = Inr ks' \<and>
           (\<forall>letter. ks' letter =
              foldl spec_better (ks letter)
                (concat (map (board_evidence L solved guess letter) bs)))"
  using assms
proof (induction bs arbitrary: ks)
  case Nil
  then show ?case by simp
next
  case (Cons b bs)
  obtain solIndex sol where b: "b = (solIndex, sol)" by (cases b)
  have "truthy (js_get solved solIndex) \<or> sol \<noteq> None"
    using Cons.prems b by simp
  from key_solution_step_letter [OF this, of L guess ks]
  obtain ks1 where s: "key_solution_step L solved guess (Inr ks) (solIndex, sol) = Inr ks1"
    and l: "\<And>letter. ks1 letter =
              foldl spec_better (ks letter) (board_evidence L solved guess letter (solIndex, sol))"
    by blast
  have "\<forall>(solIndex, sol)\<in>set bs. truthy (js_get solved solIndex) \<or> sol \<noteq> None"
    using Cons.prems by simp
  from Cons.IH [OF this, of ks1]
  obtain ks' where f: "fold (\<lambda>p acc. key_solution_step L solved guess acc p) bs (Inr ks1) = Inr ks'"
    and l': "\<And>letter. ks' letter =
              foldl spec_better (ks1 letter)
                (concat (map (board_evidence L solved guess letter) bs))"
    by blast
  show ?case
    unfolding b using s f l l' by (simp del: key_solution_step.simps)
qed

lemma key_guesses_fold:
  assumes "\<forall>(solIndex, sol)\<in>set (enumerate 0 sols). truthy (js_get solved solIndex) \<or> sol \<noteq> None"
  shows "\<exists>ks'. fold (\<lambda>p acc. (case p of (guessIndex, guess) \<Rightarrow>
                         js_forEach (key_solution_step L solved guess) sols acc))
                  gs (Inr ks) = Inr ks' \<and>
           (\<forall>letter. ks' letter =
              foldl spec_better (ks letter)
                (concat (map (\<lambda>(guessIndex, guess).
                                concat (map (board_evidence L solved guess letter)
                                          (enumerate 0 sols))) gs)))"
proof (induction gs arbitrary: ks)
  case Nil
  then show ?case by simp
next
  case (Cons g gs)
  obtain guessIndex guess where g: "g = (guessIndex, guess)" by (cases g)
  from key_boards_fold [OF assms, of L guess ks]
  obtain ks1 where s: "js_forEach (key_solution_step L solved guess) sols (Inr ks) = Inr ks1"
    and l: "\<And>letter. ks1 letter =
              foldl spec_better (ks letter)
                (concat (map (board_evidence L solved guess letter) (enumerate 0 sols)))"
    unfolding js_forEach_def by blast
  from Cons.IH [of ks1]
  obtain ks' where f: "fold (\<lambda>p acc. (case p of (guessIndex, guess) \<Rightarrow>
                         js_forEach (key_solution_step L solved guess) sols acc))
                  gs (Inr ks1) = Inr ks'"
    and l': "\<And>letter. ks' letter =
              foldl spec_better (ks1 letter)
                (concat (map (\<lambda>(guessIndex, guess).
                                concat (map (board_evidence L solved guess letter)
                                          (enumerate 0 sols))) gs))"
    by blast
  show ?case
    unfolding g using s f l l' by simp
qed

lemma evidence_enumerate:
  "concat (map (\<lambda>(guessIndex, guess). F guess) (enumerate n gs)) = concat (map F gs)"
  by (induction gs arbitrary: n) simp_all

lemma spec_better_priority: "spec_priority running \<le> spec_priority (spec_better running new)"
  by (simp add: spec_better_def)

text \<open>
  Claim C9. The keyboard map is the fold of the scorer's statuses, over every guess and every
  board whose solved entry is not true, under the priority correct over present over
  absent: a step of the fold never lowers the priority of a letter, so correct is never
  downgraded and present is never downgraded to absent, and a board whose solved entry is
  true contributes no evidence. Every board that is not solved has a solution.
\<close>

theorem keyboard_is_priority_fold:
  assumes "\<forall>(solIndex, sol)\<in>set (enumerate 0 (solutions st)).
             truthy (js_get (solvedIndices st) solIndex) \<or> sol \<noteq> None"
  shows "getKeyStatuses L st = Inr (spec_keyboard L st) \<and>
         (\<forall>statuses keyStatuses p letter.
            spec_priority (keyStatuses letter)
              \<le> spec_priority (key_step statuses keyStatuses p letter)) \<and>
         (\<forall>solIndex sol guess letter.
            truthy (js_get (solvedIndices st) solIndex)
              \<longrightarrow> board_evidence L (solvedIndices st) guess letter (solIndex, sol) = [])"
proof (intro conjI allI impI)
  from key_guesses_fold [OF assms, of L "enumerate 0 (guesses st)" Map.empty]
  obtain ks' where f: "getKeyStatuses L st = Inr ks'"
    and l: "\<And>letter. ks' letter = foldl spec_better None (evidence L st letter)"
    unfolding getKeyStatuses_def js_forEach_def evidence_def evidence_enumerate
    by (auto simp: case_prod_beta')
  have "ks' = spec_keyboard L st"
    using l by (auto simp: spec_keyboard_def)
  then show "getKeyStatuses L st = Inr (spec_keyboard L st)"
    using f by simp
next
  fix statuses :: "CharStatus option list" and keyStatuses :: "char \<rightharpoonup> CharStatus"
    and p :: "nat \<times> char" and letter :: char
  obtain i c where p: "p = (i, c)" by (cases p)
  show "spec_priority (keyStatuses letter)
          \<le> spec_priority (key_step statuses keyStatuses p letter)"
    unfolding p key_step_letter by (simp add: spec_better_priority)
next
  fix solIndex sol guess letter
  assume "truthy (js_get (solvedIndices st) solIndex)"
  then show "board_evidence L (solvedIndices st) guess letter (solIndex, sol) = []"
    by (cases sol) (simp_all add: board_evidence_def)
qed

lemma example_statuses:
  "getGuessStatuses 5 ''TERMO'' ''MUNDO''
     = [Some Absent, Some Absent, Some Absent, Some Present, Some Correct]"
  by (simp add: getGuessStatuses_def js_forEach_def js_nth_def js_get_def js_set_def
      js_findIndex_def replicate_5)

text \<open>
  On the sample session the guess TERMO counts against the board MUNDO only, the board
  TERMO being solved: O is correct, M is present, T is absent and A has no status.
\<close>

theorem keyboard_is_priority_fold_witness:
  "getKeyStatuses 5 example_state = Inr (spec_keyboard 5 example_state) \<and>
   spec_keyboard 5 example_state CHR ''O'' = Some Correct \<and>
   spec_keyboard 5 example_state CHR ''M'' = Some Present \<and>
   spec_keyboard 5 example_state CHR ''T'' = Some Absent \<and>
   spec_keyboard 5 example_state CHR ''A'' = None"
proof -
  have a: "\<forall>(solIndex, sol)\<in>set (enumerate 0 (solutions example_state)).
             truthy (js_get (solvedIndices example_state) solIndex) \<or> sol \<noteq> None"
    by (simp add: example_state_def)
  have e: "evidence 5 example_state letter =
             letter_evidence [Some Absent, Some Absent, Some Absent, Some Present, Some Correct]
               ''TERMO'' letter" for letter
    by (simp add: evidence_def board_evidence_def example_state_def js_get_def truthy_def
        example_statuses)
  have "spec_keyboard 5 example_state CHR ''O'' = Some Correct"
    "spec_keyboard 5 example_state CHR ''M'' = Some Present"
    "spec_keyboard 5 example_state CHR ''T'' = Some Absent"
    "spec_keyboard 5 example_state CHR ''A'' = None"
    by (simp_all add: spec_keyboard_def e letter_evidence_def js_get_def spec_better_def)
  then show ?thesis
    using keyboard_is_priority_fold [OF a, of 5] by simp
qed

section \<open>The buffer, the cursor and the hints in the reachable states\<close>

lemma keys_obj_put: "fst ` set (obj_put k v obj) = insert k (fst ` set obj)"
proof (induction obj)
  case Nil
  then show ?case by simp
next
  case (Cons p obj)
  obtain k' v' where p: "p = (k', v')" by (cases p)
  consider "k < k'" | "k = k'" | "k' < k" by linarith
  then show ?case
  proof cases
    case 1
    then show ?thesis by (simp add: p)
  next
    case 2
    then show ?thesis by (simp add: p)
  next
    case 3
    then show ?thesis using Cons.IH by (simp add: p insert_commute)
  qed
qed

lemma sorted_obj_put:
  "sorted_wrt (<) (map fst obj) \<Longrightarrow> sorted_wrt (<) (map fst (obj_put k v obj))"
proof (induction obj)
  case Nil
  then show ?case by simp
next
  case (Cons p obj)
  obtain k' v' where p: "p = (k', v')" by (cases p)
  have above: "\<forall>x\<in>fst ` set obj. k' < x" and tl: "sorted_wrt (<) (map fst obj)"
    using Cons.prems by (simp_all add: p)
  consider "k < k'" | "k = k'" | "k' < k" by linarith
  then show ?case
  proof cases
    case 1
    have "\<forall>x\<in>fst ` set obj. k < x"
    proof
      fix x assume "x \<in> fst ` set obj"
      then have "k' < x" using above by blast
      then show "k < x" using 1 by simp
    qed
    then show ?thesis using 1 above tl by (simp add: p)
  next
    case 2
    then show ?thesis using above tl by (simp add: p)
  next
    case 3
    have "\<forall>x\<in>fst ` set (obj_put k v obj). k' < x"
      unfolding keys_obj_put using above 3 by simp
    then show ?thesis using 3 Cons.IH [OF tl] by (simp add: p)
  qed
qed

lemma sorted_keys_distinct:
  fixes obj :: "(nat \<times> 'v) list"
  assumes "sorted_wrt (<) (map fst obj)"
  shows "distinct (map fst obj)"
  using iffD1 [OF strict_sorted_iff assms] by (rule conjunct2)

lemma session_invariant_cong:
  assumes "currentGuess st' = currentGuess st" and "activeTileIndex st' = activeTileIndex st"
    and "revealedHints st' = revealedHints st" and "solutions st' = solutions st"
  shows "session_invariant L st' = session_invariant L st"
  using assms by (simp add: session_invariant_def)

lemma enter_session_invariant:
  assumes "session_invariant L st" and "gameStatus st = Playing" and "0 < L"
  shows "session_invariant L (enter L st)"
proof (cases "accepted L st")
  case False
  show ?thesis
    unfolding enter_rejected [OF assms(2) False]
    using assms(1) by (simp add: session_invariant_def)
next
  case True
  have keys: "distinct (map fst (revealedHints st))" "\<forall>k\<in>fst ` set (revealedHints st). k < L"
    using assms(1) by (simp_all add: session_invariant_def sorted_keys_distinct)
  note h = enter_accepted_hints [OF True refl refl]
  from True obtain msk' tp' sc' where so: "solutions (enter L st) = solutions st"
    by (rule enter_accepted)
  show ?thesis
    unfolding session_invariant_def h(2,4,5) so
    using assms(1,3) nextGuess_nth(1) [OF keys]
    by (simp add: session_invariant_def)
qed

lemma onKeyDown_session_invariant:
  assumes "session_invariant L st" and "0 < L"
  shows "session_invariant L (onKeyDown L st key)"
proof (cases "gameStatus st = Playing")
  case False
  then show ?thesis using assms(1) by (simp add: onKeyDown_def)
next
  case True
  have a: "activeTileIndex st < length (currentGuess st)" "length (currentGuess st) = L"
    using assms(1) by (simp_all add: session_invariant_def)
  show ?thesis
  proof (cases "key = ''ENTER''")
    case True
    then show ?thesis
      using enter_session_invariant [OF assms(1) \<open>gameStatus st = Playing\<close> assms(2)]
            \<open>gameStatus st = Playing\<close>
      by (simp add: onKeyDown_def)
  next
    case False
    have rest: "revealedHints (onKeyDown L st key) = revealedHints st"
      "solutions (onKeyDown L st key) = solutions st"
      using False by (simp_all add: onKeyDown_def backspace_def Let_def)
    have len: "length (currentGuess (onKeyDown L st key)) = L"
      using False True a by (simp add: onKeyDown_def backspace_def Let_def length_js_set)
    have cur: "activeTileIndex (onKeyDown L st key) < L"
      using False True a assms(2)
      by (simp add: onKeyDown_def backspace_def Let_def, intro conjI impI; arith)
    show ?thesis
      unfolding session_invariant_def rest
      using len cur assms(1) by (simp add: session_invariant_def)
  qed
qed

lemma handleHint_session_case:
  assumes "session_invariant L st"
  shows "case handleHint L u st of
           Inl e \<Rightarrow> True
         | Inr st' \<Rightarrow> session_invariant L st'"
proof (cases "gameStatus st = Playing")
  case False
  then show ?thesis using assms by (simp add: handleHint_def)
next
  case playing: True
  show ?thesis
  proof (cases "score st < hintCost st")
    case True
    then show ?thesis
      using playing assms by (simp add: handleHint_insufficient session_invariant_def)
  next
    case False
    show ?thesis
    proof (cases rule: js_findIndex_cases
        [of "\<lambda>solved index. \<not> truthy solved" "solvedIndices st"])
      case none
      then show ?thesis using playing False assms by (simp add: handleHint_no_unsolved)
    next
      case (found c)
      note h = handleHint_playing [OF playing False found(1), of L u]
      show ?thesis
      proof (cases "availableIndices st = []")
        case True
        then show ?thesis
          unfolding h using assms by (simp add: Let_def session_invariant_def)
      next
        case nonempty: False
        define r where "r = availableIndices st ! random_index u (length (availableIndices st))"
        have r: "r < length (currentGuess st)"
          using random_slot_available [OF nonempty] available_slot_empty
          unfolding r_def by blast
        show ?thesis
        proof (cases "js_get (solutions st) c")
          case None
          then show ?thesis unfolding h using nonempty by (simp add: Let_def)
        next
          case (Some target)
          have cur: "(if r = activeTileIndex st
                      then next_free L (currentGuess st) (activeTileIndex st)
                      else activeTileIndex st) < L"
            using handleHint_cursor_case [where L = L and u = u and st = st] assms
            unfolding h Let_def r_def [symmetric]
            using nonempty Some by (simp add: session_invariant_def)
          show ?thesis
            unfolding h Let_def r_def [symmetric]
            using nonempty Some assms r cur
            by (simp add: session_invariant_def keys_obj_put sorted_obj_put length_js_set)
        qed
      qed
    qed
  qed
qed

lemma initGame_session_invariant:
  assumes "initGame L WORDS random st = Some st'" and "0 < L"
    and "filter (eligible L) WORDS \<noteq> []"
  shows "session_invariant L st'"
proof -
  obtain sols where sel: "selectSolutions L WORDS random (level st + 1) = Some sols"
    and st': "st' = st\<lparr>solutions := sols,
                      solvedIndices := replicate (level st + 1) (Some False),
                      guesses := [],
                      currentGuess := replicate L (Some []),
                      activeTileIndex := 0,
                      gameStatus := Playing,
                      shakeRow := False,
                      hintCost := 5,
                      revealedHints := [],
                      hintedSolutionIndex := None,
                      toast := None\<rparr>"
    using assms(1) by (auto simp: initGame_def Let_def split: option.splits)
  have "set sols \<subseteq> Some ` set (filter (eligible L) WORDS)"
    using select_loop_draws [OF sel [unfolded selectSolutions_def Let_def]]
          draw_in_pool [OF assms(3)]
    by auto
  then have "None \<notin> set sols" by auto
  then show ?thesis
    unfolding st' using assms(2) by (simp add: session_invariant_def)
qed

lemma score_update_session_invariant:
  "session_invariant L (st\<lparr>score := n\<rparr>) = session_invariant L st"
  by (simp add: session_invariant_def)

lemma apply_event_session_invariant:
  assumes "session_invariant L st" and "apply_event L WORDS st ev = Some st'"
    and "0 < L" and "filter (eligible L) WORDS \<noteq> []"
  shows "session_invariant L st'"
proof (cases ev)
  case (KeyDown key)
  then show ?thesis using assms(2) onKeyDown_session_invariant [OF assms(1,3)] by auto
next
  case (TileClick i)
  then show ?thesis using assms(1,2)
    by (auto simp: session_invariant_def split: if_splits)
next
  case (HintClick u)
  then have "handleHint L u st = Inr st'"
    using assms(2) by (auto split: sum.splits)
  then show ?thesis
    using handleHint_session_case [OF assms(1), of u] by simp
next
  case (ProximaFase random)
  then show ?thesis
    using assms(2) initGame_session_invariant [OF _ assms(3,4)] by (auto split: if_splits)
next
  case (TentarNovamente random)
  then show ?thesis
    using assms(2) initGame_session_invariant [OF _ assms(3,4)] by (auto split: if_splits)
next
  case (ReiniciarDoZero random)
  then show ?thesis
    using assms(1,2) initGame_session_invariant [OF _ assms(3,4)]
    by (auto simp: score_update_session_invariant split: if_splits)
next
  case (DictionaryLoaded ws)
  then show ?thesis using assms(1,2) by (auto simp: session_invariant_def)
next
  case ToastTimeout
  then show ?thesis using assms(1,2) by (auto simp: session_invariant_def)
next
  case ShakeTimeout
  then show ?thesis using assms(1,2) by (auto simp: session_invariant_def)
qed

text \<open>
  With a positive word length and a pool that is not empty, every reachable state has a
  buffer of \<open>WORD_LENGTH\<close> slots, the cursor on one of them, revealed hints whose keys are
  slot indices in ascending order, and a solution on every board.
\<close>

lemma reachable_session_invariant:
  assumes "reachable L WORDS VALID_GUESSES st" and "0 < L"
    and "filter (eligible L) WORDS \<noteq> []"
  shows "session_invariant L st"
  using assms(1)
proof (induction rule: reachable.induct)
  case (mounted random st)
  then show ?case
    using initGame_session_invariant [OF _ assms(2,3)]
    by (auto simp: mount_def score_update_session_invariant)
next
  case (event st ev st')
  then show ?case using apply_event_session_invariant assms(2,3) by blast
qed

text \<open>
  While the game is played, some board is not solved, and the first such board has a
  solution: the hypotheses on the hint target hold in every reachable state.
\<close>

lemma reachable_hint_target:
  assumes "reachable L WORDS VALID_GUESSES st" and "0 < L"
    and "filter (eligible L) WORDS \<noteq> []" and "gameStatus st = Playing"
  shows "\<exists>c target.
           js_findIndex (\<lambda>solved index. \<not> truthy solved) (solvedIndices st) = int c \<and>
           js_get (solutions st) c = Some target"
proof -
  have inv: "state_invariant st" using assms(1) by (rule reachable_invariant)
  have ses: "session_invariant L st" using assms(1-3) by (rule reachable_session_invariant)
  have "\<not> all_solved st" using inv assms(4) by (auto simp: state_invariant_def)
  then obtain i where i: "i < length (solvedIndices st)" "solvedIndices st ! i \<noteq> Some True"
    by (auto simp: all_solved_def list_all_length)
  show ?thesis
  proof (cases rule: js_findIndex_cases
      [of "\<lambda>solved index. \<not> truthy solved" "solvedIndices st"])
    case none
    then show ?thesis using i by (auto simp: truthy_def)
  next
    case (found c)
    have "c < length (solutions st)"
      using found(2) inv by (simp add: state_invariant_def)
    moreover have "solutions st ! c \<noteq> None"
      using ses calculation by (auto simp: session_invariant_def in_set_conv_nth)
    ultimately show ?thesis
      using found(1) by (auto simp: js_get_def)
  qed
qed

text \<open>
  The solutions of a reachable state are pairwise distinct, one for each entry of the
  solved mask, and the keys of its revealed hints are pairwise distinct slot indices: the
  hypotheses on the boards and on the revealed hints hold in every reachable state.
\<close>

lemma reachable_solutions_distinct:
  assumes "reachable L WORDS VALID_GUESSES st"
  shows "distinct (solutions st)" and "length (solutions st) = length (solvedIndices st)"
  using reachable_invariant [OF assms] by (simp_all add: state_invariant_def)

lemma reachable_revealed_keys:
  assumes "reachable L WORDS VALID_GUESSES st" and "0 < L"
    and "filter (eligible L) WORDS \<noteq> []"
  shows "distinct (map fst (revealedHints st))" and "\<forall>k\<in>fst ` set (revealedHints st). k < L"
proof -
  have ses: "session_invariant L st" using assms by (rule reachable_session_invariant)
  then have "sorted_wrt (<) (map fst (revealedHints st))"
    by (simp add: session_invariant_def)
  then show "distinct (map fst (revealedHints st))" by (rule sorted_keys_distinct)
  show "\<forall>k\<in>fst ` set (revealedHints st). k < L"
    using ses by (simp add: session_invariant_def)
qed

section \<open>Rejected actions\<close>

lemma hint_invariant_iff:
  "hint_invariant st =
     ((hintedSolutionIndex st = None \<longrightarrow> revealedHints st = []) \<and>
      (\<forall>h. hintedSolutionIndex st = Some h \<longrightarrow>
           js_findIndex (\<lambda>solved index. \<not> truthy solved) (solvedIndices st) = int h))"
  by (simp add: hint_invariant_def split: option.splits)

lemma js_findIndex_eqI:
  assumes "c < length xs" and "p (xs ! c) c" and "\<forall>i<c. \<not> p (xs ! i) i"
  shows "js_findIndex p xs = int c"
proof (cases rule: js_findIndex_cases [of p xs])
  case none
  then show ?thesis using assms(1,2) by blast
next
  case (found c')
  have "\<not> c' < c" using found(3) assms(3) by blast
  moreover have "\<not> c < c'" using found(4) assms(2) by blast
  ultimately have "c' = c" by simp
  then show ?thesis using found(1) by simp
qed

lemma hint_invariant_cong:
  assumes "hintedSolutionIndex st' = hintedSolutionIndex st"
    and "revealedHints st' = revealedHints st"
    and "solvedIndices st' = solvedIndices st"
  shows "hint_invariant st' = hint_invariant st"
  using assms by (simp add: hint_invariant_iff)

text \<open>
  An accepted submission only adds solved boards: a target that stays unsolved is still the
  first unsolved board, and a target that is solved is cleared with the revealed hints.
\<close>

lemma enter_hint_invariant:
  assumes "hint_invariant st" and "state_invariant st" and "gameStatus st = Playing"
  shows "hint_invariant (enter L st)"
proof (cases "accepted L st")
  case False
  show ?thesis
    unfolding enter_rejected [OF assms(3) False]
    using assms(1) by (simp add: hint_invariant_iff)
next
  case True
  define M where "M = fst (js_forEach (solve_step (js_join (currentGuess st)) (length (guesses st)))
                   (solutions st) (js_spread_bool (solvedIndices st), 0, score st))"
  define W where "W = (case hintedSolutionIndex st of None \<Rightarrow> False | Some h \<Rightarrow> truthy (js_get M h))"
  note h = enter_accepted_hints(1-3) [OF True M_def W_def]
  obtain tp' sc' where f:
    "js_forEach (solve_step (js_join (currentGuess st)) (length (guesses st))) (solutions st)
       (js_spread_bool (solvedIndices st), 0, score st) = (M, tp', sc')"
    unfolding M_def by (metis prod.collapse)
  have le: "length (solutions st) \<le> length (solvedIndices st)"
    using assms(2) by (simp add: state_invariant_def)
  have len: "length M = length (solvedIndices st)"
    by (rule solve_forEach(4) [OF f le])
  have grow: "truthy (js_get (solvedIndices st) j) \<Longrightarrow> truthy (js_get M j)" for j
    using solve_forEach(3) [OF f, of j] by simp
  show ?thesis
  proof (cases "hintedSolutionIndex st")
    case None
    then have "\<not> W" by (simp add: W_def)
    then show ?thesis
      using assms(1) None by (simp add: hint_invariant_iff h)
  next
    case (Some t)
    show ?thesis
    proof (cases "truthy (js_get M t)")
      case True
      then have W by (simp add: W_def Some)
      then show ?thesis by (simp add: hint_invariant_iff h)
    next
      case unsolved: False
      then have nW: "\<not> W" by (simp add: W_def Some)
      have first: "js_findIndex (\<lambda>solved index. \<not> truthy solved) (solvedIndices st) = int t"
        using assms(1) Some by (simp add: hint_invariant_iff)
      have "js_findIndex (\<lambda>solved index. \<not> truthy solved) M = int t"
      proof (cases rule: js_findIndex_cases
          [of "\<lambda>solved index. \<not> truthy solved" "solvedIndices st"])
        case none
        then show ?thesis using first by simp
      next
        case (found c)
        have ct: "c = t" using found(1) first by simp
        show ?thesis
        proof (rule js_findIndex_eqI)
          show "t < length M" using found(2) ct len by simp
          show "\<not> truthy (M ! t)"
            using unsolved \<open>t < length M\<close> by (simp add: js_get_def)
          show "\<forall>i<t. \<not> \<not> truthy (M ! i)"
          proof (intro allI impI)
            fix i assume i: "i < t"
            then have "truthy (js_get (solvedIndices st) i)"
              using found(2,4) ct by (simp add: js_get_def)
            from grow [OF this] show "\<not> \<not> truthy (M ! i)"
              using i \<open>t < length M\<close> by (simp add: js_get_def)
          qed
        qed
      qed
      then show ?thesis
        using nW Some by (simp add: hint_invariant_iff h)
    qed
  qed
qed

lemma onKeyDown_hint_invariant:
  assumes "hint_invariant st" and "state_invariant st"
  shows "hint_invariant (onKeyDown L st key)"
proof (cases "gameStatus st = Playing \<and> key = ''ENTER''")
  case True
  then show ?thesis
    using enter_hint_invariant [OF assms, of L] by (simp add: onKeyDown_def)
next
  case False
  have "hint_invariant (onKeyDown L st key) = hint_invariant st"
  proof (rule hint_invariant_cong)
    show "hintedSolutionIndex (onKeyDown L st key) = hintedSolutionIndex st"
      using False by (simp add: onKeyDown_def backspace_def Let_def)
    show "revealedHints (onKeyDown L st key) = revealedHints st"
      using False by (simp add: onKeyDown_def backspace_def Let_def)
    show "solvedIndices (onKeyDown L st key) = solvedIndices st"
      using False by (simp add: onKeyDown_def backspace_def Let_def)
  qed
  then show ?thesis using assms(1) by simp
qed

text \<open>A hint request that passes the test of the points targets the first unsolved board.\<close>

lemma handleHint_hint_case:
  assumes "hint_invariant st"
  shows "case handleHint L u st of
           Inl e \<Rightarrow> True
         | Inr st' \<Rightarrow> hint_invariant st'"
proof (cases "gameStatus st = Playing")
  case False
  then show ?thesis using assms by (simp add: handleHint_def)
next
  case playing: True
  show ?thesis
  proof (cases "score st < hintCost st")
    case True
    then show ?thesis
      using playing assms by (simp add: handleHint_insufficient hint_invariant_iff)
  next
    case False
    show ?thesis
    proof (cases rule: js_findIndex_cases
        [of "\<lambda>solved index. \<not> truthy solved" "solvedIndices st"])
      case none
      then show ?thesis using playing False assms by (simp add: handleHint_no_unsolved)
    next
      case (found c)
      note h = handleHint_playing [OF playing False found(1), of L u]
      show ?thesis
        unfolding h using found(1)
        by (simp add: Let_def hint_invariant_iff split: option.splits)
    qed
  qed
qed

lemma initGame_hint_invariant:
  assumes "initGame L WORDS random st = Some st'"
  shows "hint_invariant st'"
  using assms by (auto simp: initGame_def Let_def hint_invariant_iff split: option.splits)

lemma score_update_hint_invariant: "hint_invariant (st\<lparr>score := n\<rparr>) = hint_invariant st"
  by (simp add: hint_invariant_iff)

lemma apply_event_hint_invariant:
  assumes "hint_invariant st" and "state_invariant st"
    and "apply_event L WORDS st ev = Some st'"
  shows "hint_invariant st'"
proof (cases ev)
  case (KeyDown key)
  then show ?thesis using assms(3) onKeyDown_hint_invariant [OF assms(1,2)] by auto
next
  case (TileClick i)
  then show ?thesis using assms(1,3)
    by (auto simp: hint_invariant_iff split: if_splits)
next
  case (HintClick u)
  then have "handleHint L u st = Inr st'"
    using assms(3) by (auto split: sum.splits)
  then show ?thesis
    using handleHint_hint_case [OF assms(1), of L u] by simp
next
  case (ProximaFase random)
  then show ?thesis
    using assms(3) initGame_hint_invariant by (auto split: if_splits)
next
  case (TentarNovamente random)
  then show ?thesis
    using assms(3) initGame_hint_invariant by (auto split: if_splits)
next
  case (ReiniciarDoZero random)
  then show ?thesis
    using assms(1,3) initGame_hint_invariant
    by (auto simp: score_update_hint_invariant split: if_splits)
next
  case (DictionaryLoaded ws)
  then show ?thesis using assms(1,3) by (auto simp: hint_invariant_iff)
next
  case ToastTimeout
  then show ?thesis using assms(1,3) by (auto simp: hint_invariant_iff)
next
  case ShakeTimeout
  then show ?thesis using assms(1,3) by (auto simp: hint_invariant_iff)
qed

text \<open>
  In every reachable state, while no board is targeted nothing is revealed, and a targeted
  board is the first unsolved board.
\<close>

lemma reachable_hint_invariant:
  "reachable L WORDS VALID_GUESSES st \<Longrightarrow> hint_invariant st"
proof (induction rule: reachable.induct)
  case (mounted random st)
  then show ?case
    using initGame_hint_invariant by (auto simp: mount_def score_update_hint_invariant)
next
  case (event st ev st')
  show ?case
    using event.IH reachable_invariant [OF event.hyps(1)] event.hyps(2)
    by (rule apply_event_hint_invariant)
qed

text \<open>
  A hint request rejected for lack of a free slot, in a reachable state: the first unsolved
  board \<open>c\<close> is the target afterwards, the target before is that board or none, and the
  revealed hints are the same.
\<close>

lemma handleHint_no_slot:
  assumes "reachable L WORDS VALID_GUESSES st" and "gameStatus st = Playing"
    and "\<not> score st < hintCost st" and "availableIndices st = []"
  shows "\<exists>c. js_findIndex (\<lambda>solved index. \<not> truthy solved) (solvedIndices st) = int c \<and>
             hintedSolutionIndex st \<in> {None, Some c} \<and>
             handleHint L u st =
               Inr (st\<lparr>hintedSolutionIndex := Some c, toast := Some Libere_espaco,
                       shakeRow := True\<rparr>)"
proof (cases rule: js_findIndex_cases
    [of "\<lambda>solved index. \<not> truthy solved" "solvedIndices st"])
  case none
  have inv: "state_invariant st" using assms(1) by (rule reachable_invariant)
  have "list_all (\<lambda>b. b = Some True) (solvedIndices st)"
    unfolding list_all_length
  proof (intro allI impI)
    fix i assume i: "i < length (solvedIndices st)"
    then have "truthy (solvedIndices st ! i)" using none(2) by simp
    moreover have "solvedIndices st ! i \<noteq> None"
      using inv i by (auto simp: state_invariant_def in_set_conv_nth)
    ultimately show "solvedIndices st ! i = Some True"
      by (cases "solvedIndices st ! i") (auto simp: truthy_def)
  qed
  then have "gameStatus st = Won"
    using inv by (simp add: state_invariant_def all_solved_def)
  then show ?thesis using assms(2) by simp
next
  case (found c)
  have hi: "hint_invariant st" using assms(1) by (rule reachable_hint_invariant)
  note h = handleHint_playing [OF assms(2,3) found(1), of L u]
  show ?thesis
  proof (cases "hintedSolutionIndex st")
    case None
    then have "revealedHints st = []" using hi by (simp add: hint_invariant_iff)
    then have "st\<lparr>hintedSolutionIndex := Some c, revealedHints := []\<rparr>
                 = st\<lparr>hintedSolutionIndex := Some c\<rparr>"
      by simp
    then show ?thesis
      unfolding h using found(1) None assms(4) by (simp add: Let_def)
  next
    case (Some t)
    then have "t = c" using hi found(1) by (simp add: hint_invariant_iff)
    then have "st\<lparr>hintedSolutionIndex := Some c\<rparr> = st"
      using Some by simp
    then show ?thesis
      unfolding h using found(1) Some \<open>t = c\<close> assms(4) by (simp add: Let_def)
  qed
qed

text \<open>
  Claim C6, as the code has it. A rejected submission (incomplete buffer, wrong length or
  unknown word) and a hint request rejected for lack of points change nothing but the toast
  and the shake flag. A hint request rejected for lack of a free slot, in a reachable
  state, leaves the game state proper and the revealed hints unchanged as well, but it has
  already targeted the first unsolved board: that board is the hint target afterwards,
  where the target before was that board or none.
\<close>

theorem rejected_actions_keep_state:
  "(gameStatus st = Playing \<and> \<not> accepted L st \<longrightarrow>
      same_game st (onKeyDown L st ''ENTER'') \<and> same_hints st (onKeyDown L st ''ENTER'')) \<and>
   (gameStatus st = Playing \<and> score st < hintCost st \<longrightarrow>
      (\<exists>st'. handleHint L u st = Inr st' \<and> same_game st st' \<and> same_hints st st')) \<and>
   (reachable L WORDS VALID_GUESSES st \<and> gameStatus st = Playing \<and>
    \<not> score st < hintCost st \<and> availableIndices st = [] \<longrightarrow>
      (\<exists>st' c. handleHint L u st = Inr st' \<and> same_game st st' \<and>
         revealedHints st' = revealedHints st \<and>
         js_findIndex (\<lambda>solved index. \<not> truthy solved) (solvedIndices st) = int c \<and>
         hintedSolutionIndex st' = Some c \<and>
         hintedSolutionIndex st \<in> {None, Some c}))"
proof (intro conjI impI)
  assume a: "gameStatus st = Playing \<and> \<not> accepted L st"
  then have e: "onKeyDown L st ''ENTER'' = enter L st"
    by (simp add: onKeyDown_ENTER)
  show "same_game st (onKeyDown L st ''ENTER'')"
    unfolding e using a by (simp add: enter_rejected same_game_def)
  show "same_hints st (onKeyDown L st ''ENTER'')"
    unfolding e using a by (simp add: enter_rejected same_hints_def)
next
  assume "gameStatus st = Playing \<and> score st < hintCost st"
  then show "\<exists>st'. handleHint L u st = Inr st' \<and> same_game st st' \<and> same_hints st st'"
    by (simp add: handleHint_insufficient same_game_def same_hints_def)
next
  assume a: "reachable L WORDS VALID_GUESSES st \<and> gameStatus st = Playing \<and>
    \<not> score st < hintCost st \<and> availableIndices st = []"
  then obtain c where
    c: "js_findIndex (\<lambda>solved index. \<not> truthy solved) (solvedIndices st) = int c"
    and t: "hintedSolutionIndex st \<in> {None, Some c}"
    and h: "handleHint L u st =
               Inr (st\<lparr>hintedSolutionIndex := Some c, toast := Some Libere_espaco,
                       shakeRow := True\<rparr>)"
    using handleHint_no_slot [of L WORDS VALID_GUESSES st u] by blast
  show "\<exists>st' c. handleHint L u st = Inr st' \<and> same_game st st' \<and>
         revealedHints st' = revealedHints st \<and>
         js_findIndex (\<lambda>solved index. \<not> truthy solved) (solvedIndices st) = int c \<and>
         hintedSolutionIndex st' = Some c \<and>
         hintedSolutionIndex st \<in> {None, Some c}"
    unfolding h using c t by (simp add: same_game_def)
qed

lemma example_full_reachable:
  "reachable 5 example_WORDS example_VALID_GUESSES
     (example_state\<lparr>currentGuess := slots ''TURMA'', activeTileIndex := 4\<rparr>)"
proof -
  have "run_events 5 example_WORDS example_state (map (\<lambda>c. KeyDown [c]) ''TURMA'')
          = Some (example_state\<lparr>currentGuess := slots ''TURMA'', activeTileIndex := 4\<rparr>)"
    by (simp add: letter_key example_state_def js_set_def slots_def replicate_5)
  with example_state_reachable show ?thesis
    by (rule reachable_run_events)
qed

lemma example_full_no_slot:
  "availableIndices (example_state\<lparr>currentGuess := slots ''TURMA'', activeTileIndex := 4\<rparr>) = []"
  by (simp add: availableIndices_def slots_def js_get_def upt_conv_Cons)

lemma example_full_hint:
  "handleHint 5 u (example_state\<lparr>currentGuess := slots ''TURMA'', activeTileIndex := 4\<rparr>) =
     Inr (example_state\<lparr>currentGuess := slots ''TURMA'', activeTileIndex := 4,
                         hintedSolutionIndex := Some 1, revealedHints := [],
                         toast := Some Libere_espaco, shakeRow := True\<rparr>)"
proof -
  let ?s = "example_state\<lparr>currentGuess := slots ''TURMA'', activeTileIndex := 4\<rparr>"
  have a: "gameStatus ?s = Playing" "\<not> score ?s < hintCost ?s"
    by (simp_all add: example_state_def)
  have c: "js_findIndex (\<lambda>solved index. \<not> truthy solved) (solvedIndices ?s) = int 1"
    using example_first_unsolved by simp
  show ?thesis
    unfolding handleHint_playing [OF a c] example_full_no_slot
    by (simp add: example_state_def)
qed

text \<open>
  The claim as stated fails on the sample session: five letters are typed, so that no slot
  is free, and the hint is requested. The request is rejected, and the hint target has
  changed from none to board 1.
\<close>

theorem rejected_hint_changes_hint_state:
  "reachable 5 example_WORDS example_VALID_GUESSES
     (example_state\<lparr>currentGuess := slots ''TURMA'', activeTileIndex := 4\<rparr>) \<and>
   availableIndices (example_state\<lparr>currentGuess := slots ''TURMA'', activeTileIndex := 4\<rparr>) = [] \<and>
   hintedSolutionIndex (example_state\<lparr>currentGuess := slots ''TURMA'', activeTileIndex := 4\<rparr>)
     = None \<and>
   handleHint 5 (unit_frac 0 1)
       (example_state\<lparr>currentGuess := slots ''TURMA'', activeTileIndex := 4\<rparr>) =
     Inr (example_state\<lparr>currentGuess := slots ''TURMA'', activeTileIndex := 4,
                         hintedSolutionIndex := Some 1, revealedHints := [],
                         toast := Some Libere_espaco, shakeRow := True\<rparr>) \<and>
   \<not> same_hints
       (example_state\<lparr>currentGuess := slots ''TURMA'', activeTileIndex := 4\<rparr>)
       (example_state\<lparr>currentGuess := slots ''TURMA'', activeTileIndex := 4,
                       hintedSolutionIndex := Some 1, revealedHints := [],
                       toast := Some Libere_espaco, shakeRow := True\<rparr>)"
  using example_full_reachable example_full_no_slot example_full_hint
  by (simp add: example_state_def same_hints_def)

text \<open>
  A second state of the sample session with no free slot: the hint is requested on the
  empty buffer, which reveals the first letter of board 1, and five letters are typed.
\<close>

lemma example_hint:
  "handleHint 5 (unit_frac 0 5) example_state =
     Inr (example_state\<lparr>hintedSolutionIndex := Some 1,
                         revealedHints := [(0, Some ''M'')],
                         currentGuess := [Some ''M'', Some [], Some [], Some [], Some []],
                         score := 195, hintCost := 10\<rparr>)"
proof -
  have a: "gameStatus example_state = Playing" "\<not> score example_state < hintCost example_state"
    by (simp_all add: example_state_def)
  have len: "length [0, 1, 2, 3, 4 :: nat] = 5" by simp
  have r: "random_index (unit_frac 0 5) (length [0, 1, 2, 3, 4 :: nat]) = 0"
    unfolding len by (rule random_index_unit_frac) simp
  have n: "next_free 5 (currentGuess example_state) 0 = 0"
    by (rule next_free_empty) (simp add: example_state_def js_get_def)
  show ?thesis
    unfolding handleHint_playing [OF a example_first_unsolved] example_available Let_def r
    using n
    by (simp add: example_state_def js_get_def js_nth_def js_set_def replicate_5)
qed

lemma example_hinted_full_reachable:
  "reachable 5 example_WORDS example_VALID_GUESSES
     (example_state\<lparr>hintedSolutionIndex := Some 1, revealedHints := [(0, Some ''M'')],
                     currentGuess := slots ''TURMA'', score := 195, hintCost := 10,
                     activeTileIndex := 4\<rparr>)"
proof -
  let ?h = "example_state\<lparr>hintedSolutionIndex := Some 1,
                           revealedHints := [(0, Some ''M'')],
                           currentGuess := [Some ''M'', Some [], Some [], Some [], Some []],
                           score := 195, hintCost := 10\<rparr>"
  have h: "apply_event 5 example_WORDS example_state (HintClick (unit_frac 0 5)) = Some ?h"
    by (simp add: example_hint)
  have k: "run_events 5 example_WORDS ?h (map (\<lambda>c. KeyDown [c]) ''TURMA'')
          = Some (example_state\<lparr>hintedSolutionIndex := Some 1,
                                 revealedHints := [(0, Some ''M'')],
                                 currentGuess := slots ''TURMA'', score := 195, hintCost := 10,
                                 activeTileIndex := 4\<rparr>)"
    by (simp add: letter_key example_state_def js_set_def slots_def)
  have "run_events 5 example_WORDS example_state
          (HintClick (unit_frac 0 5) # map (\<lambda>c. KeyDown [c]) ''TURMA'')
          = Some (example_state\<lparr>hintedSolutionIndex := Some 1,
                                 revealedHints := [(0, Some ''M'')],
                                 currentGuess := slots ''TURMA'', score := 195, hintCost := 10,
                                 activeTileIndex := 4\<rparr>)"
    unfolding run_events.simps h using k by simp
  with example_state_reachable show ?thesis
    by (rule reachable_run_events)
qed

lemma example_hinted_full_no_slot:
  "availableIndices
     (example_state\<lparr>hintedSolutionIndex := Some 1, revealedHints := [(0, Some ''M'')],
                     currentGuess := slots ''TURMA'', score := 195, hintCost := 10,
                     activeTileIndex := 4\<rparr>) = []"
  by (simp add: availableIndices_def slots_def js_get_def upt_conv_Cons)

theorem rejected_actions_keep_state_witness:
  "gameStatus example_state = Playing \<and> \<not> accepted 5 example_state \<and>
   same_game example_state (onKeyDown 5 example_state ''ENTER'') \<and>
   same_hints example_state (onKeyDown 5 example_state ''ENTER'') \<and>
   gameStatus example_mounted = Playing \<and> score example_mounted < hintCost example_mounted \<and>
   (\<exists>st'. handleHint 5 (unit_frac 0 1) example_mounted = Inr st' \<and>
          same_game example_mounted st' \<and> same_hints example_mounted st') \<and>
   reachable 5 example_WORDS example_VALID_GUESSES
     (example_state\<lparr>currentGuess := slots ''TURMA'', activeTileIndex := 4\<rparr>) \<and>
   availableIndices (example_state\<lparr>currentGuess := slots ''TURMA'', activeTileIndex := 4\<rparr>) = [] \<and>
   (\<exists>st'. handleHint 5 (unit_frac 0 1)
            (example_state\<lparr>currentGuess := slots ''TURMA'', activeTileIndex := 4\<rparr>) = Inr st' \<and>
          same_game (example_state\<lparr>currentGuess := slots ''TURMA'', activeTileIndex := 4\<rparr>) st' \<and>
          revealedHints st' =
            revealedHints (example_state\<lparr>currentGuess := slots ''TURMA'', activeTileIndex := 4\<rparr>) \<and>
          hintedSolutionIndex st' = Some 1) \<and>
   reachable 5 example_WORDS example_VALID_GUESSES
     (example_state\<lparr>hintedSolutionIndex := Some 1, revealedHints := [(0, Some ''M'')],
                     currentGuess := slots ''TURMA'', score := 195, hintCost := 10,
                     activeTileIndex := 4\<rparr>) \<and>
   availableIndices
     (example_state\<lparr>hintedSolutionIndex := Some 1, revealedHints := [(0, Some ''M'')],
                     currentGuess := slots ''TURMA'', score := 195, hintCost := 10,
                     activeTileIndex := 4\<rparr>) = [] \<and>
   (\<exists>st'. handleHint 5 (unit_frac 0 1)
            (example_state\<lparr>hintedSolutionIndex := Some 1, revealedHints := [(0, Some ''M'')],
                            currentGuess := slots ''TURMA'', score := 195, hintCost := 10,
                            activeTileIndex := 4\<rparr>) = Inr st' \<and>
          same_game
            (example_state\<lparr>hintedSolutionIndex := Some 1, revealedHints := [(0, Some ''M'')],
                            currentGuess := slots ''TURMA'', score := 195, hintCost := 10,
                            activeTileIndex := 4\<rparr>) st' \<and>
          revealedHints st' = [(0, Some ''M'')] \<and> hintedSolutionIndex st' = Some 1)"
proof -
  let ?f = "example_state\<lparr>currentGuess := slots ''TURMA'', activeTileIndex := 4\<rparr>"
  let ?g = "example_state\<lparr>hintedSolutionIndex := Some 1, revealedHints := [(0, Some ''M'')],
                           currentGuess := slots ''TURMA'', score := 195, hintCost := 10,
                           activeTileIndex := 4\<rparr>"
  have a: "gameStatus example_state = Playing" "\<not> accepted 5 example_state"
    by (simp_all add: example_state_def accepted_def js_join_def replicate_5)
  have b: "gameStatus example_mounted = Playing" "score example_mounted < hintCost example_mounted"
    by (simp_all add: example_mounted_def)
  have c: "gameStatus ?f = Playing" "\<not> score ?f < hintCost ?f"
    by (simp_all add: example_state_def)
  have d: "gameStatus ?g = Playing" "\<not> score ?g < hintCost ?g"
    by (simp_all add: example_state_def)
  have first: "js_findIndex (\<lambda>solved index. \<not> truthy solved) (solvedIndices ?f) = int 1"
      "js_findIndex (\<lambda>solved index. \<not> truthy solved) (solvedIndices ?g) = int 1"
    using example_first_unsolved by simp_all
  have r1: "same_game example_state (onKeyDown 5 example_state ''ENTER'') \<and>
            same_hints example_state (onKeyDown 5 example_state ''ENTER'')"
    using rejected_actions_keep_state [of example_state 5 "unit_frac 0 1"] a by blast
  have r2: "\<exists>st'. handleHint 5 (unit_frac 0 1) example_mounted = Inr st' \<and>
          same_game example_mounted st' \<and> same_hints example_mounted st'"
    using rejected_actions_keep_state [of example_mounted 5 "unit_frac 0 1"] b by blast
  obtain st' k where r3: "handleHint 5 (unit_frac 0 1) ?f = Inr st'" "same_game ?f st'"
      "revealedHints st' = revealedHints ?f"
      "js_findIndex (\<lambda>solved index. \<not> truthy solved) (solvedIndices ?f) = int k"
      "hintedSolutionIndex st' = Some k"
    using rejected_actions_keep_state
            [of ?f 5 "unit_frac 0 1" example_WORDS example_VALID_GUESSES]
          example_full_reachable c example_full_no_slot
    by blast
  have "k = 1" using r3(4) first(1) by simp
  then have r3': "\<exists>st'. handleHint 5 (unit_frac 0 1) ?f = Inr st' \<and> same_game ?f st' \<and>
          revealedHints st' = revealedHints ?f \<and> hintedSolutionIndex st' = Some 1"
    using r3 by blast
  obtain st'' j where r4: "handleHint 5 (unit_frac 0 1) ?g = Inr st''" "same_game ?g st''"
      "revealedHints st'' = revealedHints ?g"
      "js_findIndex (\<lambda>solved index. \<not> truthy solved) (solvedIndices ?g) = int j"
      "hintedSolutionIndex st'' = Some j"
    using rejected_actions_keep_state
            [of ?g 5 "unit_frac 0 1" example_WORDS example_VALID_GUESSES]
          example_hinted_full_reachable d example_hinted_full_no_slot
    by blast
  have "j = 1" using r4(4) first(2) by simp
  moreover have "revealedHints ?g = [(0, Some ''M'')]" by simp
  ultimately have r4': "\<exists>st'. handleHint 5 (unit_frac 0 1) ?g = Inr st' \<and> same_game ?g st' \<and>
          revealedHints st' = [(0, Some ''M'')] \<and> hintedSolutionIndex st' = Some 1"
    using r4 by auto
  show ?thesis
    using a b r1 r2 example_full_reachable example_full_no_slot r3'
          example_hinted_full_reachable example_hinted_full_no_slot r4'
    by blast
qed

end
